theory Spec2Isabelle
  imports Main
begin

section \<open>Work items and the project-scoped queue (src/queue/isolated.js)\<close>

text \<open>
  A work item is a JavaScript object; its fields are those written by \<open>enqueue\<close>,
  plus \<open>assignedAgentId\<close> and \<open>completedAt\<close>, which \<open>claim\<close> and \<open>complete\<close>
  add. Status and priority are plain strings in the source, and stay strings here:
  nothing in the store restricts them to the lifecycle names. A timestamp is the instant
  read from the clock, in milliseconds; the source stores its ISO-8601 rendering, whose
  string order is the order of the instants. \<open>None\<close> stands for \<open>null\<close> or an absent
  field.
\<close>

record artifact =
  art_id :: string
  art_type :: string
  art_path :: string
  art_name :: "string option"
  art_size :: "nat option"
  art_description :: "string option"

record work_item =
  item_id :: string
  title :: string
  description :: string
  acceptanceCriteria :: "string list"
  status :: string
  priority :: string
  complexity :: string
  createdAt :: nat
  updatedAt :: nat
  createdBy :: string
  artifacts :: "artifact list"
  blockedBy :: "string list"
  blocks :: "string list"
  output_dest :: "string option"
  assignedAgentId :: "string option"
  completedAt :: "nat option"

text \<open>The argument of \<open>enqueue\<close>: every field but the title may be missing.\<close>

record new_item =
  n_title :: string
  n_description :: "string option"
  n_acceptanceCriteria :: "string list option"
  n_priority :: "string option"
  n_complexity :: "string option"
  n_createdBy :: "string option"
  n_output :: "string option"

text \<open>
  The partial object handed to \<open>update\<close>: \<open>Some v\<close> when the field is present. The
  source spreads it over the stored item, so a present field replaces the stored one.
  The fields listed are those that the callers in the source pass, and the title,
  description, priority and creation time as examples of every other field; a field that
  a work item does not have here (the executor's \<open>repoOutput\<close>) is not stored.
\<close>

record updates =
  u_title :: "string option"
  u_description :: "string option"
  u_status :: "string option"
  u_priority :: "string option"
  u_createdAt :: "nat option"
  u_artifacts :: "artifact list option"
  u_assignedAgentId :: "string option option"
  u_completedAt :: "nat option"

record queue =
  items :: "work_item list"
  version :: nat

text \<open>The queue files, one for each project id; \<open>None\<close> is a file that does not exist.\<close>

type_synonym store = "string \<rightharpoonup> queue"

datatype error =
    ItemNotFound string string
  | ItemNotFoundGlobal string
  | CannotExecute string string
  | ProjectNotFound string
  | AgentNotFound string
  | TypeError

text \<open>JavaScript's \<open>x || d\<close> on a string that may be missing: the empty string is falsy.\<close>

fun or_default :: "string option \<Rightarrow> string \<Rightarrow> string" where
  "or_default None d = d"
| "or_default (Some s) d = (if s = [] then d else s)"

text \<open>\<open>x || []\<close> on an array that may be missing: every array is truthy.\<close>

fun or_empty :: "'a list option \<Rightarrow> 'a list" where
  "or_empty None = []"
| "or_empty (Some xs) = xs"

text \<open>\<open>Array.prototype.findIndex\<close>; \<open>None\<close> is the source's \<open>-1\<close>.\<close>

fun findIndex :: "('a \<Rightarrow> bool) \<Rightarrow> 'a list \<Rightarrow> nat option" where
  "findIndex P [] = None"
| "findIndex P (x # xs) =
     (if P x then Some 0 else map_option Suc (findIndex P xs))"

definition loadQueue :: "store \<Rightarrow> string \<Rightarrow> queue" where
  "loadQueue s projectId =
     (case s projectId of None \<Rightarrow> \<lparr>items = [], version = 1\<rparr> | Some q \<Rightarrow> q)"

definition saveQueue :: "store \<Rightarrow> string \<Rightarrow> queue \<Rightarrow> store" where
  "saveQueue s projectId q = s(projectId \<mapsto> q)"

text \<open>
  \<open>enqueue\<close>: the random id and the two clock readings (\<open>createdAt\<close>, then
  \<open>updatedAt\<close>) are arguments.
\<close>

definition make_item :: "new_item \<Rightarrow> string \<Rightarrow> nat \<Rightarrow> nat \<Rightarrow> work_item" where
  "make_item item newId t1 t2 =
     \<lparr>item_id = newId,
      title = n_title item,
      description = or_default (n_description item) [],
      acceptanceCriteria = or_empty (n_acceptanceCriteria item),
      status = ''inbox'',
      priority = or_default (n_priority item) ''medium'',
      complexity = or_default (n_complexity item) ''m'',
      createdAt = t1,
      updatedAt = t2,
      createdBy = or_default (n_createdBy item) ''unknown'',
      artifacts = [],
      blockedBy = [],
      blocks = [],
      output_dest = n_output item,
      assignedAgentId = None,
      completedAt = None\<rparr>"

definition enqueue ::
  "store \<Rightarrow> string \<Rightarrow> new_item \<Rightarrow> string \<Rightarrow> nat \<Rightarrow> nat \<Rightarrow> work_item \<times> store" where
  "enqueue s projectId item newId t1 t2 =
     (let q = loadQueue s projectId;
          workItem = make_item item newId t1 t2;
          q' = q\<lparr>items := items q @ [workItem]\<rparr>
      in (workItem, saveQueue s projectId q'))"

definition list_items :: "store \<Rightarrow> string \<Rightarrow> string option \<Rightarrow> work_item list" where
  "list_items s projectId st =
     (case st of
        None \<Rightarrow> items (loadQueue s projectId)
      | Some v \<Rightarrow>
          (if v = [] then items (loadQueue s projectId)
           else filter (\<lambda>i. status i = v) (items (loadQueue s projectId))))"

definition get :: "store \<Rightarrow> string \<Rightarrow> string \<Rightarrow> work_item option" where
  "get s projectId i = find (\<lambda>it. item_id it = i) (items (loadQueue s projectId))"

text \<open>\<open>{...item, ...updates, updatedAt: now}\<close>\<close>

definition merge :: "work_item \<Rightarrow> updates \<Rightarrow> nat \<Rightarrow> work_item" where
  "merge it u now =
     it\<lparr>title := (case u_title u of None \<Rightarrow> title it | Some v \<Rightarrow> v),
        description := (case u_description u of None \<Rightarrow> description it | Some v \<Rightarrow> v),
        status := (case u_status u of None \<Rightarrow> status it | Some v \<Rightarrow> v),
        priority := (case u_priority u of None \<Rightarrow> priority it | Some v \<Rightarrow> v),
        createdAt := (case u_createdAt u of None \<Rightarrow> createdAt it | Some v \<Rightarrow> v),
        artifacts := (case u_artifacts u of None \<Rightarrow> artifacts it | Some v \<Rightarrow> v),
        assignedAgentId :=
          (case u_assignedAgentId u of None \<Rightarrow> assignedAgentId it | Some v \<Rightarrow> v),
        completedAt := (case u_completedAt u of None \<Rightarrow> completedAt it | Some v \<Rightarrow> Some v),
        updatedAt := now\<rparr>"

definition update ::
  "store \<Rightarrow> string \<Rightarrow> string \<Rightarrow> updates \<Rightarrow> nat \<Rightarrow> error + (work_item \<times> store)" where
  "update s projectId i u now =
     (let q = loadQueue s projectId in
      case findIndex (\<lambda>it. item_id it = i) (items q) of
        None \<Rightarrow> Inl (ItemNotFound i projectId)
      | Some index \<Rightarrow>
          (let it' = merge (items q ! index) u now;
               q' = q\<lparr>items := (items q)[index := it']\<rparr>
           in Inr (it', saveQueue s projectId q')))"

definition no_updates :: updates where
  "no_updates =
     \<lparr>u_title = None, u_description = None, u_status = None, u_priority = None,
      u_createdAt = None, u_artifacts = None, u_assignedAgentId = None,
      u_completedAt = None\<rparr>"

definition priorityOrder :: "string list" where
  "priorityOrder = [''urgent'', ''high'', ''medium'', ''low'']"

text \<open>
  The loop of \<open>claim\<close> over the priority classes: the first class that has a ready item
  ends it, with the first such item of the list.
\<close>

fun scan :: "string list \<Rightarrow> work_item list \<Rightarrow> work_item option" where
  "scan [] xs = None"
| "scan (p # ps) xs =
     (case find (\<lambda>it. status it = ''ready'' \<and> priority it = p) xs of
        Some it \<Rightarrow> Some it
      | None \<Rightarrow> scan ps xs)"

text \<open>
  \<open>claim\<close>. The index is looked up by the id of the item found, as in the source.
  The lookup cannot miss, since the item found is in the list (\<open>scan_findIndex\<close>
  below); the branch for a miss is therefore never taken.
\<close>

definition claim :: "store \<Rightarrow> string \<Rightarrow> string \<Rightarrow> nat \<Rightarrow> work_item option \<times> store" where
  "claim s projectId agentId now =
     (let q = loadQueue s projectId in
      case scan priorityOrder (items q) of
        None \<Rightarrow> (None, s)
      | Some nextItem \<Rightarrow>
          (case findIndex (\<lambda>it. item_id it = item_id nextItem) (items q) of
             None \<Rightarrow> (None, s)
           | Some index \<Rightarrow>
               (let it' = (items q ! index)
                            \<lparr>status := ''in_flight'', assignedAgentId := Some agentId,
                             updatedAt := now\<rparr>;
                    q' = q\<lparr>items := (items q)[index := it']\<rparr>
                in (Some it', saveQueue s projectId q'))))"

definition ready :: "store \<Rightarrow> string \<Rightarrow> string \<Rightarrow> nat \<Rightarrow> error + (work_item \<times> store)" where
  "ready s projectId i now = update s projectId i (no_updates\<lparr>u_status := Some ''ready''\<rparr>) now"

text \<open>\<open>complete\<close>: \<open>completedAt\<close> is read from the clock before \<open>update\<close> reads \<open>updatedAt\<close>.\<close>

definition complete ::
  "store \<Rightarrow> string \<Rightarrow> string \<Rightarrow> artifact list \<Rightarrow> nat \<Rightarrow> nat \<Rightarrow> error + (work_item \<times> store)" where
  "complete s projectId i arts tc now =
     update s projectId i
       (no_updates\<lparr>u_status := Some ''done'', u_artifacts := Some arts,
                   u_assignedAgentId := Some None, u_completedAt := Some tc\<rparr>) now"

text \<open>
  \<open>stats\<close> returns the number of items and an object written as a literal with five
  keys, each with the number of items of that status.
\<close>

record stats_result =
  total :: nat
  byStatus :: "(string \<times> nat) list"

definition count_status :: "string \<Rightarrow> work_item list \<Rightarrow> nat" where
  "count_status st xs = length (filter (\<lambda>i. status i = st) xs)"

definition stats :: "store \<Rightarrow> string \<Rightarrow> stats_result" where
  "stats s projectId =
     (let xs = list_items s projectId None in
      \<lparr>total = length xs,
       byStatus = [(''inbox'', count_status ''inbox'' xs),
                   (''ready'', count_status ''ready'' xs),
                   (''in_flight'', count_status ''in_flight'' xs),
                   (''done'', count_status ''done'' xs),
                   (''blocked'', count_status ''blocked'' xs)]\<rparr>)"


abbreviation stored :: "store \<Rightarrow> string \<Rightarrow> work_item list" where
  "stored s projectId \<equiv> items (loadQueue s projectId)"

subsection \<open>A concrete run: three items of priorities low, urgent, medium, all readied\<close>

definition titled :: "string \<Rightarrow> string \<Rightarrow> new_item" where
  "titled t p =
     \<lparr>n_title = t, n_description = None, n_acceptanceCriteria = None, n_priority = Some p,
      n_complexity = None, n_createdBy = None, n_output = None\<rparr>"

fun store_after :: "error + (work_item \<times> store) \<Rightarrow> store" where
  "store_after (Inr (it, s)) = s"
| "store_after (Inl e) = Map.empty"

definition scenarioA :: store where
  "scenarioA =
     (let s1 = snd (enqueue Map.empty ''p'' (titled ''Low'' ''low'') ''id1'' 1 1);
          s2 = snd (enqueue s1 ''p'' (titled ''Urgent'' ''urgent'') ''id2'' 2 2);
          s3 = snd (enqueue s2 ''p'' (titled ''Medium'' ''medium'') ''id3'' 3 3);
          s4 = store_after (ready s3 ''p'' ''id1'' 4);
          s5 = store_after (ready s4 ''p'' ''id2'' 5)
      in store_after (ready s5 ''p'' ''id3'' 6))"

text \<open>A queue with one item in the inbox, and the same queue after completing it.\<close>

definition inbox_store :: store where
  "inbox_store = snd (enqueue Map.empty ''p'' (titled ''Task'' ''medium'') ''id1'' 1 1)"

definition done_store :: store where
  "done_store = store_after (complete inbox_store ''p'' ''id1'' [] 2 2)"


definition dup_ready_store :: store where
  "dup_ready_store =
     [''p'' \<mapsto>
        \<lparr>items = [(make_item (titled ''First'' ''urgent'') ''dup'' 1 1)\<lparr>status := ''ready''\<rparr>,
                  (make_item (titled ''Second'' ''urgent'') ''dup'' 2 2)\<lparr>status := ''ready''\<rparr>],
         version = 1\<rparr>]"

text \<open>
  The state machine of the specification (section 4.1) as a relation on status names,
  with the edge from \<open>blocked\<close> back to \<open>ready\<close> and the edge from \<open>in_flight\<close>
  to \<open>done\<close> that the specification's text allows. The store has no counterpart to it.
\<close>

definition spec_edge :: "string \<Rightarrow> string \<Rightarrow> bool" where
  "spec_edge a b \<longleftrightarrow>
     (a, b) \<in> set [(''inbox'', ''ready''), (''inbox'', ''planning''),
                   (''ready'', ''planning''), (''planning'', ''ready''),
                   (''ready'', ''in_flight''), (''in_flight'', ''review''),
                   (''review'', ''done''), (''in_flight'', ''done''),
                   (''in_flight'', ''blocked''), (''blocked'', ''ready'')]"

subsection \<open>The queue without project scope (src/queue/index.js): stats\<close>

text \<open>
  The single queue file holds the items and a list of agents. \<open>stats\<close> counts the
  items by status into an object that starts as \<open>{}\<close>, with the statement
  \<open>byStatus[k] = (byStatus[k] || 0) + 1\<close> for the status \<open>k\<close> of each item.

  The object is a plain one, so reading \<open>byStatus[k]\<close> finds the members of
  \<open>Object.prototype\<close> when the object has no property \<open>k\<close> of its own. For the
  function-valued members the value read is a function, \<open>(f || 0) + 1\<close> is the text of
  the function followed by the digit 1, and the assignment gives the object a property of
  its own with that text; each later item of that status appends another digit. For
  \<open>__proto__\<close> the value read is \<open>Object.prototype\<close> itself, the sum is a text
  again, and the assignment calls the setter of \<open>__proto__\<close>, which ignores a value
  that is neither an object nor \<open>null\<close>: the object stays as it was. For every other
  key the value read is \<open>undefined\<close> the first time and the count afterwards.

  \<open>g_byStatus\<close> lists the properties that the object has of its own with their values;
  the place of a key in the list is that of its first write, which is not the order in
  which JavaScript enumerates the keys, and nothing below depends on it.
\<close>

record agent_entry =
  ag_id :: string
  ag_status :: string

record global_queue =
  g_items :: "work_item list"
  g_agents :: "agent_entry list"

text \<open>
  A value of \<open>byStatus\<close>: a count, or the text of an inherited function followed by
  so many digits 1.
\<close>

datatype bucket = Count nat | Text nat

record global_stats =
  g_total :: nat
  g_byStatus :: "(string \<times> bucket) list"
  g_activeAgents :: nat

text \<open>The function-valued members of \<open>Object.prototype\<close>, and all its members.\<close>

definition inherited_functions :: "string list" where
  "inherited_functions =
     [''constructor'', ''__defineGetter__'', ''__defineSetter__'', ''hasOwnProperty'',
      ''__lookupGetter__'', ''__lookupSetter__'', ''isPrototypeOf'',
      ''propertyIsEnumerable'', ''toString'', ''valueOf'', ''toLocaleString'']"

definition object_prototype_names :: "string list" where
  "object_prototype_names = ''__proto__'' # inherited_functions"

text \<open>\<open>(byStatus[k] || 0) + 1\<close> when the object has no property \<open>k\<close> of its own.\<close>

definition first_write :: "string \<Rightarrow> bucket" where
  "first_write k = (if k \<in> set inherited_functions then Text 1 else Count (0 + 1))"

text \<open>\<open>(v || 0) + 1\<close> for the value \<open>v\<close> of a property of its own.\<close>

fun plus_one :: "bucket \<Rightarrow> bucket" where
  "plus_one (Count c) = Count (if c = 0 then 0 + 1 else c + 1)"
| "plus_one (Text n) = Text (n + 1)"

fun bump_own :: "string \<Rightarrow> (string \<times> bucket) list \<Rightarrow> (string \<times> bucket) list" where
  "bump_own k [] = [(k, first_write k)]"
| "bump_own k ((k', v) # m) = (if k' = k then (k', plus_one v) # m else (k', v) # bump_own k m)"

text \<open>\<open>byStatus[k] = (byStatus[k] || 0) + 1\<close>\<close>

definition bump :: "string \<Rightarrow> (string \<times> bucket) list \<Rightarrow> (string \<times> bucket) list" where
  "bump k m = (if k = ''__proto__'' then m else bump_own k m)"

definition stats_global :: "global_queue \<Rightarrow> global_stats" where
  "stats_global q =
     \<lparr>g_total = length (g_items q),
      g_byStatus = fold (\<lambda>it m. bump (status it) m) (g_items q) [],
      g_activeAgents = length (filter (\<lambda>a. ag_status a = ''working'') (g_agents q))\<rparr>"

text \<open>The sum of the counts of \<open>byStatus\<close>: of those of its values that are numbers.\<close>

fun numeric :: "bucket \<Rightarrow> nat" where
  "numeric (Count c) = c"
| "numeric (Text n) = 0"

definition counts_sum :: "(string \<times> bucket) list \<Rightarrow> nat" where
  "counts_sum m = sum_list (map (numeric \<circ> snd) m)"

text \<open>The five keys that \<open>stats\<close> of the project-scoped queue writes.\<close>

definition fixed_buckets :: "string list" where
  "fixed_buckets = [''inbox'', ''ready'', ''in_flight'', ''done'', ''blocked'']"

text \<open>The three-item queue with its first item sent to planning.\<close>

definition planning_store :: store where
  "planning_store =
     store_after (update scenarioA ''p'' ''id1'' (no_updates\<lparr>u_status := Some ''planning''\<rparr>) 7)"

section \<open>Sessions, the queue without project scope, and the executor\<close>

subsection \<open>The queue without project scope (src/queue/index.js): the operations\<close>

text \<open>
  The executor works on the single queue file. Its operations are those of the
  project-scoped queue without the project id; a missing file reads as the empty queue,
  which is the value \<open>empty_queue\<close>. \<open>enqueue\<close> of this queue stores no output
  descriptor.
\<close>

definition empty_queue :: global_queue where
  "empty_queue = \<lparr>g_items = [], g_agents = []\<rparr>"

definition enqueue_g ::
  "global_queue \<Rightarrow> new_item \<Rightarrow> string \<Rightarrow> nat \<Rightarrow> nat \<Rightarrow> work_item \<times> global_queue" where
  "enqueue_g q item newId t1 t2 =
     (let workItem = (make_item item newId t1 t2)\<lparr>output_dest := None\<rparr>
      in (workItem, q\<lparr>g_items := g_items q @ [workItem]\<rparr>))"

definition get_g :: "global_queue \<Rightarrow> string \<Rightarrow> work_item option" where
  "get_g q i = find (\<lambda>it. item_id it = i) (g_items q)"

definition update_g ::
  "global_queue \<Rightarrow> string \<Rightarrow> updates \<Rightarrow> nat \<Rightarrow> error + (work_item \<times> global_queue)" where
  "update_g q i u now =
     (case findIndex (\<lambda>it. item_id it = i) (g_items q) of
        None \<Rightarrow> Inl (ItemNotFoundGlobal i)
      | Some index \<Rightarrow>
          (let it' = merge (g_items q ! index) u now
           in Inr (it', q\<lparr>g_items := (g_items q)[index := it']\<rparr>)))"

definition ready_g :: "global_queue \<Rightarrow> string \<Rightarrow> nat \<Rightarrow> error + (work_item \<times> global_queue)" where
  "ready_g q i now = update_g q i (no_updates\<lparr>u_status := Some ''ready''\<rparr>) now"

text \<open>
  \<open>complete\<close> of this queue also clears \<open>assignedSessionKey\<close>, a field that nothing
  else reads or writes, and records no \<open>completedAt\<close>.
\<close>

definition complete_g ::
  "global_queue \<Rightarrow> string \<Rightarrow> artifact list \<Rightarrow> nat \<Rightarrow> error + (work_item \<times> global_queue)" where
  "complete_g q i arts now =
     update_g q i
       (no_updates\<lparr>u_status := Some ''done'', u_artifacts := Some arts,
                   u_assignedAgentId := Some None\<rparr>) now"

text \<open>The queue without project scope with one task, still in the inbox.\<close>

definition inbox_queue :: global_queue where
  "inbox_queue = snd (enqueue_g empty_queue (titled ''Task'' ''medium'') ''id1'' 1 1)"

text \<open>
  The same queue after \<open>update\<close> has given the task the status \<open>__proto__\<close>, and
  after it has given it the status \<open>toString\<close>.
\<close>

definition queue_after :: "error + (work_item \<times> global_queue) \<Rightarrow> global_queue" where
  "queue_after r = (case r of Inl e \<Rightarrow> empty_queue | Inr (w, q) \<Rightarrow> q)"

definition proto_queue :: global_queue where
  "proto_queue =
     queue_after (update_g inbox_queue ''id1'' (no_updates\<lparr>u_status := Some ''__proto__''\<rparr>) 2)"

definition toString_queue :: global_queue where
  "toString_queue =
     queue_after (update_g inbox_queue ''id1'' (no_updates\<lparr>u_status := Some ''toString''\<rparr>) 2)"

text \<open>The queue without project scope with the three items of the planning example.\<close>

definition planning_queue :: global_queue where
  "planning_queue = \<lparr>g_items = stored planning_store ''p'', g_agents = []\<rparr>"

subsection \<open>Files\<close>

text \<open>
  The part of the file system under the data directory: the entries, each under its
  directory and name. The list holds them in the order in which they were created; that
  is not the order in which the file system lists a directory. Directories that hold
  entries are not entries themselves: the source creates every directory it writes into
  (\<open>mkdir\<close> with \<open>recursive\<close>) just before. An entry may be a directory, which an
  agent working in its workspace can create; \<open>access\<close> finds it and \<open>readFile\<close> fails
  on it.
\<close>

datatype node = File string | Directory

type_synonym filesystem = "((string \<times> string) \<times> node) list"

definition path_join :: "string \<Rightarrow> string \<Rightarrow> string" where
  "path_join d n = d @ ''/'' @ n"

definition access :: "filesystem \<Rightarrow> string \<Rightarrow> string \<Rightarrow> bool" where
  "access fs d n = (map_of fs (d, n) \<noteq> None)"

definition readFile :: "filesystem \<Rightarrow> string \<Rightarrow> string \<Rightarrow> string option" where
  "readFile fs d n = (case map_of fs (d, n) of Some (File c) \<Rightarrow> Some c | _ \<Rightarrow> None)"

text \<open>\<open>Map.prototype.set\<close> on a list of keys and values; \<open>writeFile\<close> is the same on files.\<close>

fun map_set :: "'k \<Rightarrow> 'v \<Rightarrow> ('k \<times> 'v) list \<Rightarrow> ('k \<times> 'v) list" where
  "map_set k v [] = [(k, v)]"
| "map_set k v ((k', v') # m) =
     (if k' = k then (k', v) # m else (k', v') # map_set k v m)"

definition map_delete :: "'k \<Rightarrow> ('k \<times> 'v) list \<Rightarrow> ('k \<times> 'v) list" where
  "map_delete k m = filter (\<lambda>kv. fst kv \<noteq> k) m"

definition writeFile :: "filesystem \<Rightarrow> string \<Rightarrow> string \<Rightarrow> string \<Rightarrow> filesystem" where
  "writeFile fs d n c = map_set (d, n) (File c) fs"

text \<open>
  \<open>readdir\<close> lists the entries of a directory in an order that is the file system's
  own: \<open>rank\<close> gives the place of each name in each directory, and the entries are
  listed by it.
\<close>

definition readdir ::
  "(string \<Rightarrow> string \<Rightarrow> nat) \<Rightarrow> filesystem \<Rightarrow> string \<Rightarrow> (string \<times> node) list" where
  "readdir rank fs d =
     sort_key (\<lambda>e. rank d (fst e))
       (map (\<lambda>e. (snd (fst e), snd e)) (filter (\<lambda>e. fst (fst e) = d) fs))"

subsection \<open>The agent manager (src/agents/index.js)\<close>

record session =
  s_id :: string
  s_workItemId :: string
  s_status :: string
  s_workspaceDir :: string
  s_artifactsDir :: string
  s_startedAt :: nat
  s_lastActivityAt :: nat

record agent_context =
  c_agentId :: string
  c_workspaceDir :: string
  c_artifactsDir :: string

datatype mode = Mock | Spawn | External

record running_entry =
  r_workItemId :: string
  r_startedAt :: nat
  r_status :: string

record project =
  p_id :: string
  p_name :: string
  p_status :: string
  workItemIds :: "string list"
  p_maxConcurrent :: nat

text \<open>
  Everything the executor and the agent manager read and write: the queue file, the
  projects file, the session table of the agent manager, the files, the executor's table
  of running executions, its list of pending ids and its two options that matter here.
  \<open>started\<close> holds the ids whose execution \<open>_processQueue\<close> has started and that
  have not run yet (see there). \<open>dir_rank\<close> is the order in which the file system
  lists the names of a directory.
  \<open>rand\<close> is the sequence of random ids that \<open>crypto.randomBytes\<close> yields and
  \<open>drawn\<close> the number of them used so far; \<open>clock\<close> is the reading of the clock;
  \<open>render\<close> gives the text that the source writes into the file of a given name for a
  work item (the wording of these texts plays no part here). The task prompt returned by
  \<open>spawn\<close> and the events published on the way are left out.
\<close>

record world =
  queue_file :: global_queue
  projects_file :: "project list"
  sessions :: "(string \<times> session) list"
  files :: filesystem
  running :: "(string \<times> running_entry) list"
  pendingSpawns :: "string list"
  started :: "string list"
  opt_mode :: mode
  opt_maxConcurrent :: nat
  rand :: "nat \<Rightarrow> string"
  drawn :: nat
  clock :: nat
  render :: "string \<Rightarrow> work_item \<Rightarrow> string"
  dir_rank :: "string \<Rightarrow> string \<Rightarrow> nat"

definition AGENTS_DIR :: string where
  "AGENTS_DIR = ''data/agents''"

definition createWorkspace :: "world \<Rightarrow> string \<Rightarrow> work_item \<Rightarrow> (string \<times> string) \<times> world" where
  "createWorkspace w aid workItem =
     (let wsDir = path_join (path_join AGENTS_DIR aid) ''workspace'';
          artDir = path_join (path_join AGENTS_DIR aid) ''artifacts'';
          fs1 = writeFile (files w) wsDir ''AGENTS.md'' (render w ''AGENTS.md'' workItem);
          fs2 = writeFile fs1 wsDir ''WORK_ITEM.json'' (render w ''WORK_ITEM.json'' workItem)
      in ((wsDir, artDir), w\<lparr>files := fs2\<rparr>))"

definition spawn :: "world \<Rightarrow> work_item \<Rightarrow> agent_context \<times> world" where
  "spawn w workItem =
     (let aid = rand w (drawn w);
          w1 = w\<lparr>drawn := Suc (drawn w)\<rparr>;
          (dirs, w2) = createWorkspace w1 aid workItem;
          sess = \<lparr>s_id = aid, s_workItemId = item_id workItem, s_status = ''starting'',
                  s_workspaceDir = fst dirs, s_artifactsDir = snd dirs,
                  s_startedAt = clock w2, s_lastActivityAt = clock w2\<rparr>
      in (\<lparr>c_agentId = aid, c_workspaceDir = fst dirs, c_artifactsDir = snd dirs\<rparr>,
          w2\<lparr>sessions := map_set aid sess (sessions w2)\<rparr>))"

datatype completion = Completed string | Blocked string | Working

text \<open>
  \<open>checkCompletion\<close>: \<open>None\<close> is the \<open>null\<close> returned for an unknown session. A
  failure of \<open>access\<close> or of \<open>readFile\<close> on the completion marker leads to the check
  of the blocked marker, and a failure there to the answer \<open>working\<close>.
\<close>

definition checkCompletion :: "world \<Rightarrow> string \<Rightarrow> completion option" where
  "checkCompletion w aid =
     (case map_of (sessions w) aid of
        None \<Rightarrow> None
      | Some sess \<Rightarrow>
          Some (case (if access (files w) (s_artifactsDir sess) ''COMPLETION.md''
                      then readFile (files w) (s_artifactsDir sess) ''COMPLETION.md''
                      else None) of
                  Some content \<Rightarrow> Completed content
                | None \<Rightarrow>
                    (case (if access (files w) (s_workspaceDir sess) ''BLOCKED.md''
                           then readFile (files w) (s_workspaceDir sess) ''BLOCKED.md''
                           else None) of
                       Some content \<Rightarrow> Blocked content
                     | None \<Rightarrow> Working)))"

text \<open>
  \<open>collectArtifacts\<close>: one artifact for each regular file of the artifacts directory,
  each with a random id of its own.
\<close>

fun collect :: "string \<Rightarrow> (string \<times> node) list \<Rightarrow> (nat \<Rightarrow> string) \<Rightarrow> nat \<Rightarrow> artifact list \<times> nat" where
  "collect d [] rnd k = ([], k)"
| "collect d ((n, Directory) # es) rnd k = collect d es rnd k"
| "collect d ((n, File c) # es) rnd k =
     (let (as, k') = collect d es rnd (Suc k)
      in (\<lparr>art_id = rnd k, art_type = ''file'', art_path = path_join d n,
           art_name = Some n, art_size = Some (length c), art_description = None\<rparr> # as, k'))"

definition collectArtifacts :: "world \<Rightarrow> string \<Rightarrow> (error + artifact list) \<times> world" where
  "collectArtifacts w aid =
     (case map_of (sessions w) aid of
        None \<Rightarrow> (Inl (AgentNotFound aid), w)
      | Some sess \<Rightarrow>
          (let (as, k) = collect (s_artifactsDir sess)
                           (readdir (dir_rank w) (files w) (s_artifactsDir sess))
                           (rand w) (drawn w)
           in (Inr as, w\<lparr>drawn := k\<rparr>)))"

subsection \<open>The executor (src/executor/index.js)\<close>

record spawn_result =
  x_mode :: mode
  x_agentId :: string
  x_workItemId :: string
  x_artifacts :: "artifact list"

text \<open>
  An operation that can throw returns the error or its result, and in both cases the
  world as it is when the operation ends: what was written before an exception stays
  written.
\<close>

definition executeMock ::
  "world \<Rightarrow> work_item \<Rightarrow> agent_context \<Rightarrow> (error + spawn_result) \<times> world" where
  "executeMock w workItem ctx =
     (let fs1 = writeFile (files w) (c_artifactsDir ctx) ''COMPLETION.md''
                  (render w ''COMPLETION.md'' workItem);
          fs2 = writeFile fs1 (c_artifactsDir ctx) ''mock-output.txt''
                  (render w ''mock-output.txt'' workItem);
          w1 = w\<lparr>files := fs2\<rparr>
      in case collectArtifacts w1 (c_agentId ctx) of
           (Inl e, w2) \<Rightarrow> (Inl e, w2)
         | (Inr arts, w2) \<Rightarrow>
             (case complete_g (queue_file w2) (item_id workItem) arts (clock w2) of
                Inl e \<Rightarrow> (Inl e, w2)
              | Inr (it, q) \<Rightarrow>
                  (Inr \<lparr>x_mode = Mock, x_agentId = c_agentId ctx,
                        x_workItemId = item_id workItem, x_artifacts = arts\<rparr>,
                   w2\<lparr>queue_file := q,
                      running := map_delete (c_agentId ctx) (running w2)\<rparr>)))"

definition executeExternal ::
  "world \<Rightarrow> work_item \<Rightarrow> agent_context \<Rightarrow> (error + spawn_result) \<times> world" where
  "executeExternal w workItem ctx =
     (Inr \<lparr>x_mode = External, x_agentId = c_agentId ctx, x_workItemId = item_id workItem,
           x_artifacts = []\<rparr>,
      w\<lparr>files := writeFile (files w) (c_workspaceDir ctx) ''TASK.md''
                    (render w ''TASK.md'' workItem)\<rparr>)"

definition executeSpawn ::
  "world \<Rightarrow> work_item \<Rightarrow> agent_context \<Rightarrow> (error + spawn_result) \<times> world" where
  "executeSpawn w workItem ctx =
     (Inr \<lparr>x_mode = Spawn, x_agentId = c_agentId ctx, x_workItemId = item_id workItem,
           x_artifacts = []\<rparr>, w)"

text \<open>
  \<open>_spawn\<close>: the session is created first, then the item is marked \<open>in_flight\<close> in the
  queue, then the execution is entered in the table of running executions.
\<close>

definition executor_spawn :: "world \<Rightarrow> work_item \<Rightarrow> (error + spawn_result) \<times> world" where
  "executor_spawn w workItem =
     (let (ctx, w1) = spawn w workItem in
      case update_g (queue_file w1) (item_id workItem)
             (no_updates\<lparr>u_status := Some ''in_flight'',
                         u_assignedAgentId := Some (Some (c_agentId ctx))\<rparr>) (clock w1) of
        Inl e \<Rightarrow> (Inl e, w1)
      | Inr (it, q) \<Rightarrow>
          (let w2 = w1\<lparr>queue_file := q,
                       running := map_set (c_agentId ctx)
                         \<lparr>r_workItemId = item_id workItem, r_startedAt = clock w1,
                          r_status = ''running''\<rparr> (running w1)\<rparr>
           in case opt_mode w2 of
                Mock \<Rightarrow> executeMock w2 workItem ctx
              | Spawn \<Rightarrow> executeSpawn w2 workItem ctx
              | External \<Rightarrow> executeExternal w2 workItem ctx))"

text \<open>\<open>String.prototype.startsWith\<close>\<close>

definition startsWith :: "string \<Rightarrow> string \<Rightarrow> bool" where
  "startsWith s p = (take (length p) s = p)"

definition executeItem :: "world \<Rightarrow> string \<Rightarrow> (error + spawn_result) \<times> world" where
  "executeItem w workItemId =
     (case find (\<lambda>i. item_id i = workItemId \<or> startsWith (item_id i) workItemId)
             (g_items (queue_file w)) of
        None \<Rightarrow> (Inl (ItemNotFoundGlobal workItemId), w)
      | Some workItem \<Rightarrow>
          (if status workItem \<notin> set [''ready'', ''inbox'', ''planning'']
           then (Inl (CannotExecute workItemId (status workItem)), w)
           else if status workItem \<noteq> ''ready''
           then (case ready_g (queue_file w) (item_id workItem) (clock w) of
                   Inl e \<Rightarrow> (Inl e, w)
                 | Inr (it, q) \<Rightarrow> executor_spawn (w\<lparr>queue_file := q\<rparr>) workItem)
           else executor_spawn w workItem))"

text \<open>
  Each operation of the executor is taken as a whole: from its call to its return no
  other operation runs, though the source would let one run at each \<open>await\<close>. The one
  exception is the execution that \<open>_processQueue\<close> starts, which is described next.

  \<open>_processQueue\<close> is called by \<open>checkExecution\<close> without \<open>await\<close>. It runs
  up to its first wait: the two tests, the removal of the first pending id, and the call
  of \<open>executeItem\<close>, which begins by reading the queue file and waits for that. There
  control goes back to \<open>checkExecution\<close>, which returns. So \<open>processQueue\<close> only
  notes the id in \<open>started\<close>; nothing has been added to the table of running
  executions yet.
\<close>

definition processQueue :: "world \<Rightarrow> world" where
  "processQueue w =
     (if length (pendingSpawns w) = 0 then w
      else if length (running w) \<ge> opt_maxConcurrent w then w
      else (case pendingSpawns w of
              [] \<Rightarrow> w
            | nextId # rest \<Rightarrow>
                (let w1 = w\<lparr>pendingSpawns := rest\<rparr>
                 in if nextId \<noteq> [] then w1\<lparr>started := started w1 @ [nextId]\<rparr> else w1)))"

text \<open>
  The rest of a started execution, at some later moment: \<open>executeItem\<close> on the
  \<open>k\<close>-th of the started ids. Nothing awaits it, so its result, an error included,
  reaches no caller: only the world is returned.
\<close>

definition resume_started :: "world \<Rightarrow> nat \<Rightarrow> world" where
  "resume_started w k =
     (if k < length (started w)
      then snd (executeItem (w\<lparr>started := take k (started w) @ drop (Suc k) (started w)\<rparr>)
                  (started w ! k))
      else w)"

datatype check_result =
    SessionNotFound
  | CheckCompleted string "artifact list" string
  | CheckBlocked string string
  | CheckRunning string

text \<open>
  \<open>checkExecution\<close>. The repository output is always \<open>null\<close>: the call that would
  create it names a variable that does not exist in this method, inside a \<open>try\<close> whose
  handler only logs.
\<close>

definition checkExecution :: "world \<Rightarrow> string \<Rightarrow> (error + check_result) \<times> world" where
  "checkExecution w aid =
     (case map_of (sessions w) aid of
        None \<Rightarrow> (Inr SessionNotFound, w)
      | Some sess \<Rightarrow>
          (case checkCompletion w aid of
             Some (Completed report) \<Rightarrow>
               (case collectArtifacts w aid of
                  (Inl e, w1) \<Rightarrow> (Inl e, w1)
                | (Inr arts, w1) \<Rightarrow>
                    (case get_g (queue_file w1) (s_workItemId sess) of
                       None \<Rightarrow> (Inl TypeError, w1)
                     | Some workItem \<Rightarrow>
                         (case update_g (queue_file w1) (s_workItemId sess)
                                 (no_updates\<lparr>u_status := Some ''review'',
                                    u_artifacts := Some (map (\<lambda>a.
                                      \<lparr>art_id = art_id a, art_type = art_type a,
                                       art_path = art_path a, art_name = None,
                                       art_size = None, art_description = art_name a\<rparr>) arts)\<rparr>)
                                 (clock w1) of
                            Inl e \<Rightarrow> (Inl e, w1)
                          | Inr (it, q) \<Rightarrow>
                              (Inr (CheckCompleted (s_workItemId sess) arts report),
                               processQueue
                                 (w1\<lparr>queue_file := q,
                                     running := map_delete aid (running w1)\<rparr>)))))
           | Some (Blocked report) \<Rightarrow>
               (case update_g (queue_file w) (s_workItemId sess)
                       (no_updates\<lparr>u_status := Some ''blocked''\<rparr>) (clock w) of
                  Inl e \<Rightarrow> (Inl e, w)
                | Inr (it, q) \<Rightarrow>
                    (Inr (CheckBlocked (s_workItemId sess) report),
                     w\<lparr>queue_file := q, running := map_delete aid (running w)\<rparr>))
           | _ \<Rightarrow> (Inr (CheckRunning (s_workItemId sess)), w)))"

subsection \<open>Projects (src/projects/index.js) and executeProject\<close>

definition project_get :: "world \<Rightarrow> string \<Rightarrow> (project \<times> work_item list) option" where
  "project_get w projectId =
     (case find (\<lambda>p. p_id p = projectId \<or> startsWith (p_id p) projectId) (projects_file w) of
        None \<Rightarrow> None
      | Some p \<Rightarrow> Some (p, filter (\<lambda>it. item_id it \<in> set (workItemIds p))
                               (g_items (queue_file w))))"

text \<open>
  \<open>readyAll\<close>. An error of a \<open>ready\<close> call ends it with the items readied so far
  written (each call saves the queue file) and the project's status unchanged.
\<close>

fun ready_each_w :: "world \<Rightarrow> work_item list \<Rightarrow> (error + unit) \<times> world" where
  "ready_each_w w [] = (Inr (), w)"
| "ready_each_w w (it # rest) =
     (if status it \<in> set [''inbox'', ''planning'']
      then (case ready_g (queue_file w) (item_id it) (clock w) of
              Inl e \<Rightarrow> (Inl e, w)
            | Inr (r, q') \<Rightarrow> ready_each_w (w\<lparr>queue_file := q'\<rparr>) rest)
      else ready_each_w w rest)"

definition readyAll :: "world \<Rightarrow> string \<Rightarrow> (error + unit) \<times> world" where
  "readyAll w projectId =
     (case project_get w projectId of
        None \<Rightarrow> (Inl (ProjectNotFound projectId), w)
      | Some (p, workItems) \<Rightarrow>
          (case ready_each_w w workItems of
             (Inl e, w1) \<Rightarrow> (Inl e, w1)
           | (Inr u, w1) \<Rightarrow>
               (case findIndex (\<lambda>pr. p_id pr = p_id p) (projects_file w1) of
                  None \<Rightarrow> (Inr (), w1)
                | Some k \<Rightarrow>
                    (Inr (),
                     w1\<lparr>projects_file :=
                           (projects_file w1)
                             [k := (projects_file w1 ! k)\<lparr>p_status := ''active''\<rparr>]\<rparr>))))"

fun spawn_each :: "world \<Rightarrow> work_item list \<Rightarrow> (error + spawn_result list) \<times> world" where
  "spawn_each w [] = (Inr [], w)"
| "spawn_each w (it # rest) =
     (case executor_spawn w it of
        (Inl e, w1) \<Rightarrow> (Inl e, w1)
      | (Inr r, w1) \<Rightarrow>
          (case spawn_each w1 rest of
             (Inl e, w2) \<Rightarrow> (Inl e, w2)
           | (Inr rs, w2) \<Rightarrow> (Inr (r # rs), w2)))"

datatype project_result =
    NoItems string
  | Executed string nat nat "spawn_result list"

definition executeProject :: "world \<Rightarrow> string \<Rightarrow> (error + project_result) \<times> world" where
  "executeProject w projectId =
     (case project_get w projectId of
        None \<Rightarrow> (Inl (ProjectNotFound projectId), w)
      | Some (p, workItems) \<Rightarrow>
          (case readyAll w (p_id p) of
             (Inl e, w1) \<Rightarrow> (Inl e, w1)
           | (Inr u, w1) \<Rightarrow>
               (let readyItems =
                      filter (\<lambda>i. status i \<in> set [''ready'', ''inbox'', ''planning'']) workItems
                in if length readyItems = 0 then (Inr (NoItems (p_id p)), w1)
                   else
                     (let maxConcurrent =
                            (if p_maxConcurrent p \<noteq> 0 then p_maxConcurrent p
                             else opt_maxConcurrent w1);
                          toSpawn = take maxConcurrent readyItems;
                          queued = drop maxConcurrent readyItems;
                          w2 = w1\<lparr>pendingSpawns := pendingSpawns w1 @ map item_id queued\<rparr>
                      in case spawn_each w2 toSpawn of
                           (Inl e, w3) \<Rightarrow> (Inl e, w3)
                         | (Inr results, w3) \<Rightarrow>
                             (Inr (Executed (p_id p) (length results) (length queued) results),
                              w3)))))"

subsection \<open>A concrete world and the blocked-marker scenario\<close>

text \<open>
  An executor in external mode with room for two executions, an empty queue and no files,
  on a file system that lists a directory in the order in which its entries were created;
  and the world after a session was spawned for a task and the agent wrote only the
  blocked marker into its workspace.
\<close>

definition world0 :: world where
  "world0 =
     \<lparr>queue_file = empty_queue, projects_file = [], sessions = [], files = [],
      running = [], pendingSpawns = [], started = [], opt_mode = External,
      opt_maxConcurrent = 2,
      rand = (\<lambda>n. ''agent'' @ replicate n (CHR ''x'')), drawn = 0, clock = 10,
      render = (\<lambda>n it. n @ '' for '' @ title it), dir_rank = (\<lambda>d n. 0)\<rparr>"

definition task1 :: work_item where
  "task1 = make_item (titled ''Task 1'' ''medium'') ''id1'' 1 1"

definition scenarioC :: world where
  "scenarioC =
     (let w1 = snd (spawn world0 task1)
      in w1\<lparr>files := writeFile (files w1) ''data/agents/agent/workspace'' ''BLOCKED.md''
                         ''need credentials''\<rparr>)"

text \<open>
  Scenario D: three tasks in the inbox, in a project that allows two executions at a
  time, and an executor in external mode that allows two.
\<close>

definition task2 :: work_item where
  "task2 = make_item (titled ''Task 2'' ''medium'') ''id2'' 2 2"

definition task3 :: work_item where
  "task3 = make_item (titled ''Task 3'' ''medium'') ''id3'' 3 3"

definition world_d :: world where
  "world_d =
     world0\<lparr>queue_file := \<lparr>g_items = [task1, task2, task3], g_agents = []\<rparr>,
            projects_file :=
              [\<lparr>p_id = ''proj'', p_name = ''Test'', p_status = ''planning'',
                workItemIds = [''id1'', ''id2'', ''id3''], p_maxConcurrent = 2\<rparr>]\<rparr>"




text \<open>
  Scenario D with a fourth task: the world after \<open>executeProject\<close> when the first
  agent has written its completion marker; that world after two calls of
  \<open>checkExecution\<close> for that agent, the second one before the execution started by
  the first has run; and the world when both started executions have run.
\<close>

definition task4 :: work_item where
  "task4 = make_item (titled ''Task 4'' ''medium'') ''id4'' 4 4"

definition world_e :: world where
  "world_e =
     world0\<lparr>queue_file := \<lparr>g_items = [task1, task2, task3, task4], g_agents = []\<rparr>,
            projects_file :=
              [\<lparr>p_id = ''proj'', p_name = ''Test'', p_status = ''planning'',
                workItemIds = [''id1'', ''id2'', ''id3'', ''id4''], p_maxConcurrent = 2\<rparr>]\<rparr>"

definition overlap_completed :: world where
  "overlap_completed =
     (let w = snd (executeProject world_e ''proj'')
      in w\<lparr>files := writeFile (files w) ''data/agents/agent/artifacts''
                        ''COMPLETION.md'' ''all done''\<rparr>)"

definition overlap_checked :: world where
  "overlap_checked =
     snd (checkExecution (snd (checkExecution overlap_completed ''agent'')) ''agent'')"

definition overlap_resumed :: world where
  "overlap_resumed = resume_started (resume_started overlap_checked 0) 0"




section \<open>Concurrent claims on one project (withProjectLock)\<close>

text \<open>
  The process has one thread: a call runs until it reaches an \<open>await\<close>, and there other
  calls can run. A call of \<open>claim\<close> under \<open>withProjectLock\<close> has five such
  stretches. Entering: it reads the project's current lock promise, makes a new
  unresolved promise the project's lock, and awaits the promise it read. Acquiring: the
  awaited promise being resolved, it starts reading the queue file. Reading: with the
  content read, it scans for the item to claim; with none it returns \<open>null\<close> and
  resolves its promise; otherwise it builds the new queue and starts writing it. Writing:
  the file is replaced. Releasing: it returns the item and resolves its promise.

  A promise is the number of lock promises made before it, so the promise that a new
  call makes is the successor of the one it awaits; \<open>st_resolved\<close> is the set of the
  resolved ones, and promise \<open>0\<close> is the resolved promise that \<open>getLock\<close> makes
  when the project has none. A task is a call with what it holds between two stretches.
  Only calls of \<open>claim\<close> on this one project are in flight.
\<close>

datatype task =
    Init string
  | Waiting string nat nat
  | Reading string nat
  | Writing string nat queue work_item
  | Written nat work_item
  | Done "work_item option"

record sys =
  st_store :: store
  st_lock :: nat
  st_resolved :: "nat set"
  st_tasks :: "task list"

inductive step :: "string \<Rightarrow> sys \<Rightarrow> sys \<Rightarrow> bool" for projectId where
  enter:
    "i < length (st_tasks \<sigma>) \<Longrightarrow> st_tasks \<sigma> ! i = Init a \<Longrightarrow>
     step projectId \<sigma>
       (\<sigma>\<lparr>st_lock := Suc (st_lock \<sigma>),
          st_tasks := (st_tasks \<sigma>)[i := Waiting a (st_lock \<sigma>) (Suc (st_lock \<sigma>))]\<rparr>)"
| acquire:
    "i < length (st_tasks \<sigma>) \<Longrightarrow> st_tasks \<sigma> ! i = Waiting a prev mine \<Longrightarrow>
     prev \<in> st_resolved \<sigma> \<Longrightarrow>
     step projectId \<sigma> (\<sigma>\<lparr>st_tasks := (st_tasks \<sigma>)[i := Reading a mine]\<rparr>)"
| read_none:
    "i < length (st_tasks \<sigma>) \<Longrightarrow> st_tasks \<sigma> ! i = Reading a mine \<Longrightarrow>
     scan priorityOrder (stored (st_store \<sigma>) projectId) = None \<Longrightarrow>
     step projectId \<sigma>
       (\<sigma>\<lparr>st_resolved := insert mine (st_resolved \<sigma>),
          st_tasks := (st_tasks \<sigma>)[i := Done None]\<rparr>)"
| read_some:
    "i < length (st_tasks \<sigma>) \<Longrightarrow> st_tasks \<sigma> ! i = Reading a mine \<Longrightarrow>
     scan priorityOrder (stored (st_store \<sigma>) projectId) = Some nextItem \<Longrightarrow>
     findIndex (\<lambda>it. item_id it = item_id nextItem) (stored (st_store \<sigma>) projectId)
       = Some index \<Longrightarrow>
     it' = (stored (st_store \<sigma>) projectId ! index)
             \<lparr>status := ''in_flight'', assignedAgentId := Some a, updatedAt := now\<rparr> \<Longrightarrow>
     q' = (loadQueue (st_store \<sigma>) projectId)
             \<lparr>items := (stored (st_store \<sigma>) projectId)[index := it']\<rparr> \<Longrightarrow>
     step projectId \<sigma> (\<sigma>\<lparr>st_tasks := (st_tasks \<sigma>)[i := Writing a mine q' it']\<rparr>)"
| write_back:
    "i < length (st_tasks \<sigma>) \<Longrightarrow> st_tasks \<sigma> ! i = Writing a mine q' it' \<Longrightarrow>
     step projectId \<sigma>
       (\<sigma>\<lparr>st_store := saveQueue (st_store \<sigma>) projectId q',
          st_tasks := (st_tasks \<sigma>)[i := Written mine it']\<rparr>)"
| release:
    "i < length (st_tasks \<sigma>) \<Longrightarrow> st_tasks \<sigma> ! i = Written mine it' \<Longrightarrow>
     step projectId \<sigma>
       (\<sigma>\<lparr>st_resolved := insert mine (st_resolved \<sigma>),
          st_tasks := (st_tasks \<sigma>)[i := Done (Some it')]\<rparr>)"

text \<open>At the start no call has entered and no lock promise is pending.\<close>

definition initial :: "sys \<Rightarrow> bool" where
  "initial \<sigma> \<longleftrightarrow>
     st_lock \<sigma> = 0 \<and> st_resolved \<sigma> = {0} \<and> (\<forall>t\<in>set (st_tasks \<sigma>). \<exists>a. t = Init a)"

fun in_cs :: "task \<Rightarrow> bool" where
  "in_cs (Reading a m) = True"
| "in_cs (Writing a m q it) = True"
| "in_cs (Written m it) = True"
| "in_cs t = False"

fun mine_of :: "task \<Rightarrow> nat option" where
  "mine_of (Waiting a p m) = Some m"
| "mine_of (Reading a m) = Some m"
| "mine_of (Writing a m q it) = Some m"
| "mine_of (Written m it) = Some m"
| "mine_of t = None"

fun claimed_of :: "task \<Rightarrow> work_item option" where
  "claimed_of (Written m it) = Some it"
| "claimed_of (Done r) = r"
| "claimed_of t = None"

text \<open>The invariant of the lock: promises and their owners.\<close>

definition task_ok :: "nat \<Rightarrow> nat set \<Rightarrow> task \<Rightarrow> bool" where
  "task_ok n R t \<longleftrightarrow>
     (\<forall>m. mine_of t = Some m \<longrightarrow>
        0 < m \<and> m \<le> n \<and> m \<notin> R \<and> (in_cs t \<longrightarrow> m - 1 \<in> R)
        \<and> (\<forall>a p. t = Waiting a p m \<longrightarrow> p = m - 1))"

definition res_ok :: "nat \<Rightarrow> nat set \<Rightarrow> bool" where
  "res_ok n R \<longleftrightarrow> 0 \<in> R \<and> (\<forall>p\<in>R. p \<le> n \<and> (\<forall>p'<p. p' \<in> R))"

definition uniq :: "task list \<Rightarrow> bool" where
  "uniq ts \<longleftrightarrow>
     (\<forall>i<length ts. \<forall>j<length ts. i \<noteq> j \<longrightarrow>
        mine_of (ts ! i) = None \<or> mine_of (ts ! i) \<noteq> mine_of (ts ! j))"

definition lock_inv :: "sys \<Rightarrow> bool" where
  "lock_inv \<sigma> \<longleftrightarrow>
     res_ok (st_lock \<sigma>) (st_resolved \<sigma>)
     \<and> (\<forall>i<length (st_tasks \<sigma>). task_ok (st_lock \<sigma>) (st_resolved \<sigma>) (st_tasks \<sigma> ! i))
     \<and> uniq (st_tasks \<sigma>)"

text \<open>The invariant of the data: what the tasks hold agrees with the queue file.\<close>

definition writing_ok :: "queue \<Rightarrow> task \<Rightarrow> bool" where
  "writing_ok q0 t \<longleftrightarrow>
     (\<forall>a m q it. t = Writing a m q it \<longrightarrow>
        (\<exists>k<length (items q0). status (items q0 ! k) = ''ready''
           \<and> item_id it = item_id (items q0 ! k) \<and> status it = ''in_flight''
           \<and> q = q0\<lparr>items := (items q0)[k := it]\<rparr>))"

definition claimed_ok :: "work_item list \<Rightarrow> task \<Rightarrow> bool" where
  "claimed_ok xs t \<longleftrightarrow>
     (\<forall>it. claimed_of t = Some it \<longrightarrow>
        (\<exists>k<length xs. item_id (xs ! k) = item_id it \<and> status (xs ! k) = ''in_flight''))"

definition results_distinct :: "task list \<Rightarrow> bool" where
  "results_distinct ts \<longleftrightarrow>
     (\<forall>i<length ts. \<forall>j<length ts. \<forall>x y.
        i \<noteq> j \<and> claimed_of (ts ! i) = Some x \<and> claimed_of (ts ! j) = Some y
        \<longrightarrow> item_id x \<noteq> item_id y)"

definition data_inv :: "string \<Rightarrow> sys \<Rightarrow> bool" where
  "data_inv projectId \<sigma> \<longleftrightarrow>
     distinct (map item_id (stored (st_store \<sigma>) projectId))
     \<and> (\<forall>i<length (st_tasks \<sigma>).
           writing_ok (loadQueue (st_store \<sigma>) projectId) (st_tasks \<sigma> ! i)
           \<and> claimed_ok (stored (st_store \<sigma>) projectId) (st_tasks \<sigma> ! i))
     \<and> results_distinct (st_tasks \<sigma>)"

text \<open>
  A scheduler that can be run: the next stretch of call \<open>i\<close>, if it can run now, with
  the clock reading that the call would see; and a schedule of such choices.
\<close>

definition advance :: "string \<Rightarrow> nat \<Rightarrow> nat \<Rightarrow> sys \<Rightarrow> sys" where
  "advance projectId i now \<sigma> =
     (if i < length (st_tasks \<sigma>) then
        (case st_tasks \<sigma> ! i of
           Init a \<Rightarrow>
             \<sigma>\<lparr>st_lock := Suc (st_lock \<sigma>),
               st_tasks := (st_tasks \<sigma>)[i := Waiting a (st_lock \<sigma>) (Suc (st_lock \<sigma>))]\<rparr>
         | Waiting a prev mine \<Rightarrow>
             (if prev \<in> st_resolved \<sigma>
              then \<sigma>\<lparr>st_tasks := (st_tasks \<sigma>)[i := Reading a mine]\<rparr>
              else \<sigma>)
         | Reading a mine \<Rightarrow>
             (case scan priorityOrder (stored (st_store \<sigma>) projectId) of
                None \<Rightarrow>
                  \<sigma>\<lparr>st_resolved := insert mine (st_resolved \<sigma>),
                    st_tasks := (st_tasks \<sigma>)[i := Done None]\<rparr>
              | Some nextItem \<Rightarrow>
                  (case findIndex (\<lambda>it. item_id it = item_id nextItem)
                          (stored (st_store \<sigma>) projectId) of
                     None \<Rightarrow> \<sigma>
                   | Some index \<Rightarrow>
                       \<sigma>\<lparr>st_tasks := (st_tasks \<sigma>)
                            [i := Writing a mine
                               ((loadQueue (st_store \<sigma>) projectId)
                                  \<lparr>items := (stored (st_store \<sigma>) projectId)
                                     [index := (stored (st_store \<sigma>) projectId ! index)
                                        \<lparr>status := ''in_flight'', assignedAgentId := Some a,
                                         updatedAt := now\<rparr>]\<rparr>)
                               ((stored (st_store \<sigma>) projectId ! index)
                                  \<lparr>status := ''in_flight'', assignedAgentId := Some a,
                                   updatedAt := now\<rparr>)]\<rparr>))
         | Writing a mine q' it' \<Rightarrow>
             \<sigma>\<lparr>st_store := saveQueue (st_store \<sigma>) projectId q',
               st_tasks := (st_tasks \<sigma>)[i := Written mine it']\<rparr>
         | Written mine it' \<Rightarrow>
             \<sigma>\<lparr>st_resolved := insert mine (st_resolved \<sigma>),
               st_tasks := (st_tasks \<sigma>)[i := Done (Some it')]\<rparr>
         | Done r \<Rightarrow> \<sigma>)
      else \<sigma>)"

fun run :: "string \<Rightarrow> (nat \<times> nat) list \<Rightarrow> sys \<Rightarrow> sys" where
  "run projectId [] \<sigma> = \<sigma>"
| "run projectId ((i, now) # sched) \<sigma> = run projectId sched (advance projectId i now \<sigma>)"

text \<open>Two agents claim at once from the three-item queue.\<close>

definition two_claims :: sys where
  "two_claims =
     \<lparr>st_store = scenarioA, st_lock = 0, st_resolved = {0},
      st_tasks = [Init ''agent-1'', Init ''agent-2'']\<rparr>"

definition interleaving :: "(nat \<times> nat) list" where
  "interleaving =
     [(0, 7), (1, 8), (1, 8), (0, 7), (0, 7), (1, 8), (0, 7), (1, 8), (0, 7),
      (1, 8), (1, 8), (1, 8), (1, 8)]"

text \<open>Two agents claim at once from a queue whose two ready items share an id.\<close>

definition dup_claims :: sys where
  "dup_claims =
     \<lparr>st_store = dup_ready_store, st_lock = 0, st_resolved = {0},
      st_tasks = [Init ''agent-1'', Init ''agent-2'']\<rparr>"

text \<open>
  For the proof that the calls do not block each other for ever: every pending promise
  belongs to a call that has not returned, and the stretches of a call are counted.
\<close>

definition owned :: "sys \<Rightarrow> bool" where
  "owned \<sigma> \<longleftrightarrow>
     (\<forall>p. 0 < p \<and> p \<le> st_lock \<sigma> \<and> p \<notin> st_resolved \<sigma>
        \<longrightarrow> (\<exists>i<length (st_tasks \<sigma>). mine_of (st_tasks \<sigma> ! i) = Some p))"

fun rank :: "task \<Rightarrow> nat" where
  "rank (Init a) = 0"
| "rank (Waiting a p m) = 1"
| "rank (Reading a m) = 2"
| "rank (Writing a m q it) = 3"
| "rank (Written m it) = 4"
| "rank (Done r) = 5"


text \<open>\<open>claim\<close> of the queue without project scope: the same scan and the same update.\<close>

definition claim_g :: "global_queue \<Rightarrow> string \<Rightarrow> nat \<Rightarrow> work_item option \<times> global_queue" where
  "claim_g q a now =
     (case scan priorityOrder (g_items q) of
        None \<Rightarrow> (None, q)
      | Some nextItem \<Rightarrow>
          (case findIndex (\<lambda>it. item_id it = item_id nextItem) (g_items q) of
             None \<Rightarrow> (None, q)
           | Some index \<Rightarrow>
               (let it' = (g_items q ! index)
                            \<lparr>status := ''in_flight'', assignedAgentId := Some a,
                             updatedAt := now\<rparr>
                in (Some it', q\<lparr>g_items := (g_items q)[index := it']\<rparr>))))"

section \<open>Properties of the project-scoped queue\<close>

subsection \<open>Searching the item list\<close>

lemma findIndex_Some_iff:
  "findIndex P xs = Some k \<longleftrightarrow> (k < length xs \<and> P (xs ! k) \<and> (\<forall>j<k. \<not> P (xs ! j)))"
proof (induction xs arbitrary: k)
  case Nil
  then show ?case by simp
next
  case (Cons x xs)
  show ?case
  proof (cases "P x")
    case True
    then show ?thesis by (cases k) auto
  next
    case False
    show ?thesis
    proof (cases k)
      case 0
      with False show ?thesis by auto
    next
      case (Suc m)
      with False Cons.IH [of m] show ?thesis
        by (auto simp: less_Suc_eq_0_disj nth_Cons split: nat.splits)
    qed
  qed
qed

lemma findIndex_None_iff: "findIndex P xs = None \<longleftrightarrow> (\<forall>x\<in>set xs. \<not> P x)"
  by (induction xs) auto

lemma findIndex_distinct:
  assumes "distinct (map f xs)" and "k < length xs"
  shows "findIndex (\<lambda>x. f x = f (xs ! k)) xs = Some k"
proof -
  have "\<forall>j<k. f (xs ! j) \<noteq> f (xs ! k)"
  proof (intro allI impI)
    fix j assume "j < k"
    with assms have "map f xs ! j \<noteq> map f xs ! k"
      using nth_eq_iff_index_eq [of "map f xs" j k] by simp
    with \<open>j < k\<close> assms(2) show "f (xs ! j) \<noteq> f (xs ! k)" by simp
  qed
  with assms(2) show ?thesis by (simp add: findIndex_Some_iff)
qed


lemma scan_findIndex:
  assumes "scan ps xs = Some it"
  shows "findIndex (\<lambda>x. item_id x = item_id it) xs \<noteq> None"
proof -
  from assms have "it \<in> set xs"
  proof (induction ps)
    case Nil
    then show ?case by simp
  next
    case (Cons p ps)
    show ?case
    proof (cases "find (\<lambda>it. status it = ''ready'' \<and> priority it = p) xs")
      case None
      with Cons show ?thesis by simp
    next
      case (Some a)
      with Cons.prems have "find (\<lambda>it. status it = ''ready'' \<and> priority it = p) xs = Some it"
        by simp
      then show ?thesis by (auto simp: find_Some_iff)
    qed
  qed
  then show ?thesis by (auto simp: findIndex_None_iff)
qed

lemma scan_Some:
  assumes "scan ps xs = Some it"
  shows "\<exists>r k. r < length ps \<and> k < length xs \<and> it = xs ! k
           \<and> status it = ''ready'' \<and> priority it = ps ! r
           \<and> (\<forall>j<length xs. status (xs ! j) = ''ready'' \<longrightarrow> (\<forall>r'<r. priority (xs ! j) \<noteq> ps ! r'))
           \<and> (\<forall>j<k. \<not> (status (xs ! j) = ''ready'' \<and> priority (xs ! j) = ps ! r))"
  using assms
proof (induction ps)
  case Nil
  then show ?case by simp
next
  case (Cons p ps)
  show ?case
  proof (cases "find (\<lambda>it. status it = ''ready'' \<and> priority it = p) xs")
    case None
    with Cons.prems have "scan ps xs = Some it" by simp
    from Cons.IH [OF this] obtain r k where rk:
      "r < length ps" "k < length xs" "it = xs ! k" "status it = ''ready''"
      "priority it = ps ! r"
      "\<forall>j<length xs. status (xs ! j) = ''ready'' \<longrightarrow> (\<forall>r'<r. priority (xs ! j) \<noteq> ps ! r')"
      "\<forall>j<k. \<not> (status (xs ! j) = ''ready'' \<and> priority (xs ! j) = ps ! r)"
      by blast
    from None have np: "\<forall>j<length xs. status (xs ! j) = ''ready'' \<longrightarrow> priority (xs ! j) \<noteq> p"
      by (auto simp: find_None_iff)
    have "\<forall>j<length xs. status (xs ! j) = ''ready''
            \<longrightarrow> (\<forall>r'<Suc r. priority (xs ! j) \<noteq> (p # ps) ! r')"
      using rk(6) np by (auto simp: nth_Cons split: nat.splits)
    with rk show ?thesis
      by (intro exI [of _ "Suc r"] exI [of _ k]) simp
  next
    case (Some a)
    with Cons.prems have "a = it" by simp
    with Some obtain k where "k < length xs" "it = xs ! k" "status it = ''ready''"
      "priority it = p" "\<forall>j<k. \<not> (status (xs ! j) = ''ready'' \<and> priority (xs ! j) = p)"
      by (auto simp: find_Some_iff)
    then show ?thesis
      by (intro exI [of _ 0] exI [of _ k]) simp
  qed
qed

subsection \<open>claim\<close>



lemma scenarioA_items:
  "stored scenarioA ''p'' =
     [make_item (titled ''Low'' ''low'') ''id1'' 1 1 \<lparr>status := ''ready'', updatedAt := 4\<rparr>,
      make_item (titled ''Urgent'' ''urgent'') ''id2'' 2 2 \<lparr>status := ''ready'', updatedAt := 5\<rparr>,
      make_item (titled ''Medium'' ''medium'') ''id3'' 3 3 \<lparr>status := ''ready'', updatedAt := 6\<rparr>]"
  by (simp add: scenarioA_def enqueue_def ready_def update_def loadQueue_def saveQueue_def
      merge_def no_updates_def make_item_def titled_def Let_def)

text \<open>
  Scenario A: three claims in a row return the urgent, the medium and the low item, and a
  fourth finds no work.
\<close>

lemma scenario_A_claims:
  "(let (r1, s1) = claim scenarioA ''p'' ''agent-1'' 7;
        (r2, s2) = claim s1 ''p'' ''agent-2'' 8;
        (r3, s3) = claim s2 ''p'' ''agent-3'' 9;
        (r4, s4) = claim s3 ''p'' ''agent-4'' 10
    in (map_option title r1, map_option title r2, map_option title r3, r4))
   = (Some ''Urgent'', Some ''Medium'', Some ''Low'', None)"
  using scenarioA_items
  by (simp add: claim_def loadQueue_def saveQueue_def priorityOrder_def make_item_def
      titled_def Let_def split: option.splits)


subsection \<open>Loading, saving and looking items up\<close>

lemma loadQueue_saveQueue [simp]: "loadQueue (saveQueue s projectId q) projectId = q"
  by (simp add: loadQueue_def saveQueue_def)

lemma loadQueue_saveQueue_other [simp]:
  "other \<noteq> projectId \<Longrightarrow> loadQueue (saveQueue s projectId q) other = loadQueue s other"
  by (simp add: loadQueue_def saveQueue_def)

lemma findIndex_id_iff:
  "(\<exists>k. findIndex (\<lambda>it. f it = i) xs = Some k) \<longleftrightarrow> i \<in> f ` set xs"
proof -
  have "(findIndex (\<lambda>it. f it = i) xs \<noteq> None) \<longleftrightarrow> i \<in> f ` set xs"
    by (auto simp: findIndex_None_iff)
  then show ?thesis by auto
qed

lemma find_update_at_index:
  assumes "findIndex P xs = Some k" and "P w"
  shows "find P (xs[k := w]) = Some w"
proof -
  from assms(1) have k: "k < length xs" and before: "\<forall>j<k. \<not> P (xs ! j)"
    by (simp_all add: findIndex_Some_iff)
  have "\<exists>i<length (xs[k := w]). P (xs[k := w] ! i) \<and> w = xs[k := w] ! i
          \<and> (\<forall>j<i. \<not> P (xs[k := w] ! j))"
    using k before assms(2) by (intro exI [of _ k]) simp
  then show ?thesis by (simp only: find_Some_iff)
qed

lemma find_append_new:
  assumes "\<forall>x\<in>set xs. \<not> P x" and "P w"
  shows "find P (xs @ [w]) = Some w"
  using assms by (induction xs) auto

lemma merge_item_id [simp]: "item_id (merge it u now) = item_id it"
  by (simp add: merge_def)

lemma update_result:
  "update s projectId i u now =
     (case findIndex (\<lambda>it. item_id it = i) (stored s projectId) of
        None \<Rightarrow> Inl (ItemNotFound i projectId)
      | Some k \<Rightarrow>
          Inr (merge (stored s projectId ! k) u now,
               saveQueue s projectId
                 ((loadQueue s projectId)
                    \<lparr>items := (stored s projectId)[k := merge (stored s projectId ! k) u now]\<rparr>)))"
  by (simp add: update_def Let_def split: option.splits)

lemma get_after_update:
  assumes "findIndex (\<lambda>it. item_id it = i) (stored s projectId) = Some k"
  shows "get (saveQueue s projectId
                ((loadQueue s projectId)
                   \<lparr>items := (stored s projectId)[k := merge (stored s projectId ! k) u now]\<rparr>))
             projectId i
         = Some (merge (stored s projectId ! k) u now)"
proof -
  from assms have "item_id (stored s projectId ! k) = i"
    by (simp add: findIndex_Some_iff)
  then have "item_id (merge (stored s projectId ! k) u now) = i" by simp
  from find_update_at_index [OF assms, of "merge (stored s projectId ! k) u now", OF this]
  show ?thesis by (simp add: get_def)
qed

lemma update_g_result:
  "update_g q i u now =
     (case findIndex (\<lambda>it. item_id it = i) (g_items q) of
        None \<Rightarrow> Inl (ItemNotFoundGlobal i)
      | Some k \<Rightarrow> Inr (merge (g_items q ! k) u now,
                       q\<lparr>g_items := (g_items q)[k := merge (g_items q ! k) u now]\<rparr>))"
  by (simp add: update_g_def Let_def split: option.splits)

lemma get_g_after_update:
  assumes "findIndex (\<lambda>it. item_id it = i) (g_items q) = Some k"
  shows "get_g (q\<lparr>g_items := (g_items q)[k := merge (g_items q ! k) u now]\<rparr>) i
         = Some (merge (g_items q ! k) u now)"
proof -
  from assms have "item_id (g_items q ! k) = i"
    by (simp add: findIndex_Some_iff)
  then have "item_id (merge (g_items q ! k) u now) = i" by simp
  from find_update_at_index [OF assms, of "merge (g_items q ! k) u now", OF this]
  show ?thesis by (simp add: get_g_def)
qed

subsection \<open>enqueue and get\<close>

text \<open>
  C9, as the code has it. \<open>enqueue\<close> never fails and never deduplicates: it appends the
  new item to the project's list. When the generated id is not yet in the list, \<open>get\<close>
  of that id returns the item just stored, with status \<open>inbox\<close> and the two clock
  readings. The title is stored as given; a description or a list of acceptance criteria
  that was supplied is stored as given; a priority, complexity or creator that was
  supplied and is not the empty string is stored as given, and one that is missing or
  empty is replaced by the default \<open>medium\<close>, \<open>m\<close> or \<open>unknown\<close>.
\<close>

theorem enqueue_get_roundtrip:
  assumes fresh: "newId \<notin> item_id ` set (stored s projectId)"
  shows "\<exists>w s'. enqueue s projectId item newId t1 t2 = (w, s')
           \<and> get s' projectId (item_id w) = Some w
           \<and> stored s' projectId = stored s projectId @ [w]
           \<and> item_id w = newId \<and> status w = ''inbox'' \<and> createdAt w = t1 \<and> updatedAt w = t2
           \<and> title w = n_title item
           \<and> (\<forall>v. n_description item = Some v \<longrightarrow> description w = v)
           \<and> (\<forall>v. n_acceptanceCriteria item = Some v \<longrightarrow> acceptanceCriteria w = v)
           \<and> (\<forall>v. n_priority item = Some v \<and> v \<noteq> [] \<longrightarrow> priority w = v)
           \<and> (\<forall>v. n_complexity item = Some v \<and> v \<noteq> [] \<longrightarrow> complexity w = v)
           \<and> (\<forall>v. n_createdBy item = Some v \<and> v \<noteq> [] \<longrightarrow> createdBy w = v)
           \<and> (n_priority item \<in> {None, Some []} \<longrightarrow> priority w = ''medium'')
           \<and> (n_complexity item \<in> {None, Some []} \<longrightarrow> complexity w = ''m'')
           \<and> (n_createdBy item \<in> {None, Some []} \<longrightarrow> createdBy w = ''unknown'')"
proof -
  let ?w = "make_item item newId t1 t2"
  let ?s' = "saveQueue s projectId
               ((loadQueue s projectId)\<lparr>items := stored s projectId @ [?w]\<rparr>)"
  have e: "enqueue s projectId item newId t1 t2 = (?w, ?s')"
    by (simp add: enqueue_def Let_def)
  have idw: "item_id ?w = newId" by (simp add: make_item_def)
  from fresh have "\<forall>x\<in>set (stored s projectId). \<not> item_id x = newId" by auto
  from find_append_new [of "stored s projectId" "\<lambda>it. item_id it = newId" ?w, OF this idw]
  have g: "get ?s' projectId (item_id ?w) = Some ?w"
    by (simp add: get_def idw)
  have st: "stored ?s' projectId = stored s projectId @ [?w]" by simp
  have fields: "item_id ?w = newId \<and> status ?w = ''inbox'' \<and> createdAt ?w = t1
      \<and> updatedAt ?w = t2 \<and> title ?w = n_title item
      \<and> (\<forall>v. n_description item = Some v \<longrightarrow> description ?w = v)
      \<and> (\<forall>v. n_acceptanceCriteria item = Some v \<longrightarrow> acceptanceCriteria ?w = v)
      \<and> (\<forall>v. n_priority item = Some v \<and> v \<noteq> [] \<longrightarrow> priority ?w = v)
      \<and> (\<forall>v. n_complexity item = Some v \<and> v \<noteq> [] \<longrightarrow> complexity ?w = v)
      \<and> (\<forall>v. n_createdBy item = Some v \<and> v \<noteq> [] \<longrightarrow> createdBy ?w = v)
      \<and> (n_priority item \<in> {None, Some []} \<longrightarrow> priority ?w = ''medium'')
      \<and> (n_complexity item \<in> {None, Some []} \<longrightarrow> complexity ?w = ''m'')
      \<and> (n_createdBy item \<in> {None, Some []} \<longrightarrow> createdBy ?w = ''unknown'')"
    by (auto simp: make_item_def)
  from e g st fields show ?thesis by blast
qed

text \<open>
  The round trip does not return every supplied field: a priority supplied as the empty
  string comes back as \<open>medium\<close>.
\<close>

theorem enqueue_get_roundtrip_counterexample:
  "n_priority (titled ''T'' []) = Some []
   \<and> map_option priority
       (get (snd (enqueue Map.empty ''p'' (titled ''T'' []) ''id1'' 1 1)) ''p'' ''id1'')
     = Some ''medium''"
  by (simp add: titled_def enqueue_def get_def make_item_def Let_def loadQueue_def saveQueue_def)

theorem enqueue_get_roundtrip_witness:
  "''id4'' \<notin> item_id ` set (stored scenarioA ''p'')
   \<and> map_option title
       (get (snd (enqueue scenarioA ''p'' (titled ''T'' ''high'') ''id4'' 7 7)) ''p'' ''id4'')
     = Some ''T''
   \<and> map_option priority
       (get (snd (enqueue scenarioA ''p'' (titled ''T'' ''high'') ''id4'' 7 7)) ''p'' ''id4'')
     = Some ''high''"
proof -
  have fresh: "''id4'' \<notin> item_id ` set (stored scenarioA ''p'')"
    by (simp add: scenarioA_items make_item_def)
  from enqueue_get_roundtrip [OF fresh, of "titled ''T'' ''high''" 7 7]
  obtain w s' where "enqueue scenarioA ''p'' (titled ''T'' ''high'') ''id4'' 7 7 = (w, s')"
    "get s' ''p'' (item_id w) = Some w" "item_id w = ''id4''"
    "title w = n_title (titled ''T'' ''high'')"
    "\<forall>v. n_priority (titled ''T'' ''high'') = Some v \<and> v \<noteq> [] \<longrightarrow> priority w = v"
    by blast
  then show ?thesis using fresh by (simp add: titled_def)
qed

subsection \<open>Two small queues\<close>

lemma inbox_store_items:
  "stored inbox_store ''p'' = [make_item (titled ''Task'' ''medium'') ''id1'' 1 1]"
  by (simp add: inbox_store_def enqueue_def Let_def loadQueue_def saveQueue_def)

lemma done_store_items:
  "stored done_store ''p'' =
     [make_item (titled ''Task'' ''medium'') ''id1'' 1 1
        \<lparr>status := ''done'', completedAt := Some 2, updatedAt := 2\<rparr>]"
  by (simp add: done_store_def complete_def update_result inbox_store_items merge_def
      no_updates_def make_item_def)

lemma find_Some_mem: "find P xs = Some x \<Longrightarrow> x \<in> set xs \<and> P x"
  by (induction xs) (auto split: if_splits)

subsection \<open>complete\<close>

text \<open>\<open>complete\<close> of a project's queue, when the id is there and when it is not.\<close>

lemma complete_absent:
  "i \<notin> item_id ` set (stored s projectId)
     \<longrightarrow> complete s projectId i arts tc now = Inl (ItemNotFound i projectId)"
proof
  assume "i \<notin> item_id ` set (stored s projectId)"
  then have "findIndex (\<lambda>it. item_id it = i) (stored s projectId) = None"
    by (auto simp: findIndex_None_iff)
  then show "complete s projectId i arts tc now = Inl (ItemNotFound i projectId)"
    by (simp add: complete_def update_result)
qed

lemma complete_present:
  "i \<in> item_id ` set (stored s projectId)
     \<longrightarrow> (\<exists>w s'. complete s projectId i arts tc now = Inr (w, s')
            \<and> item_id w = i \<and> status w = ''done'' \<and> artifacts w = arts
            \<and> assignedAgentId w = None \<and> updatedAt w = now
            \<and> get s' projectId i = Some w
            \<and> (\<forall>arts2 tc2 now2. \<exists>w2 s2.
                  complete s' projectId i arts2 tc2 now2 = Inr (w2, s2)
                  \<and> status w2 = ''done'' \<and> artifacts w2 = arts2
                  \<and> assignedAgentId w2 = None \<and> get s2 projectId i = Some w2))"
proof
  let ?u = "\<lambda>a t. no_updates\<lparr>u_status := Some ''done'', u_artifacts := Some a,
                   u_assignedAgentId := Some None, u_completedAt := Some t\<rparr>"
  have fields: "\<And>it a t n. status (merge it (?u a t) n) = ''done''
      \<and> artifacts (merge it (?u a t) n) = a \<and> assignedAgentId (merge it (?u a t) n) = None
      \<and> updatedAt (merge it (?u a t) n) = n"
    by (simp add: merge_def no_updates_def)
  assume "i \<in> item_id ` set (stored s projectId)"
  then obtain k where k: "findIndex (\<lambda>it. item_id it = i) (stored s projectId) = Some k"
    using findIndex_id_iff [of item_id i "stored s projectId"] by blast
  let ?w = "merge (stored s projectId ! k) (?u arts tc) now"
  let ?s' = "saveQueue s projectId
               ((loadQueue s projectId)\<lparr>items := (stored s projectId)[k := ?w]\<rparr>)"
  have c: "complete s projectId i arts tc now = Inr (?w, ?s')"
    using k by (simp add: complete_def update_result)
  have g: "get ?s' projectId i = Some ?w"
    by (rule get_after_update [OF k])
  from k have idw: "item_id ?w = i" by (simp add: findIndex_Some_iff)
  have again: "\<forall>arts2 tc2 now2. \<exists>w2 s2.
        complete ?s' projectId i arts2 tc2 now2 = Inr (w2, s2)
        \<and> status w2 = ''done'' \<and> artifacts w2 = arts2 \<and> assignedAgentId w2 = None
        \<and> get s2 projectId i = Some w2"
  proof (intro allI)
    fix arts2 tc2 now2
    from g have "?w \<in> set (stored ?s' projectId)"
      unfolding get_def by (rule find_Some_mem [THEN conjunct1])
    with idw have "i \<in> item_id ` set (stored ?s' projectId)"
      by (rule_tac x = ?w in image_eqI) simp_all
    then obtain k2 where k2: "findIndex (\<lambda>it. item_id it = i) (stored ?s' projectId) = Some k2"
      using findIndex_id_iff [of item_id i "stored ?s' projectId"] by blast
    let ?w2 = "merge (stored ?s' projectId ! k2) (?u arts2 tc2) now2"
    let ?s2 = "saveQueue ?s' projectId
               ((loadQueue ?s' projectId)\<lparr>items := (stored ?s' projectId)[k2 := ?w2]\<rparr>)"
    have c2: "complete ?s' projectId i arts2 tc2 now2 = Inr (?w2, ?s2)"
      using k2 by (simp only: complete_def update_result option.case)
    have g2: "get ?s2 projectId i = Some ?w2"
      by (rule get_after_update [OF k2])
    show "\<exists>w2 s2. complete ?s' projectId i arts2 tc2 now2 = Inr (w2, s2)
        \<and> status w2 = ''done'' \<and> artifacts w2 = arts2 \<and> assignedAgentId w2 = None
        \<and> get s2 projectId i = Some w2"
    proof (intro exI conjI)
      show "complete ?s' projectId i arts2 tc2 now2 = Inr (?w2, ?s2)" by (rule c2)
      show "status ?w2 = ''done''" "artifacts ?w2 = arts2" "assignedAgentId ?w2 = None"
        by (simp_all add: fields)
      show "get ?s2 projectId i = Some ?w2" by (rule g2)
    qed
  qed
  show "\<exists>w s'. complete s projectId i arts tc now = Inr (w, s')
            \<and> item_id w = i \<and> status w = ''done'' \<and> artifacts w = arts
            \<and> assignedAgentId w = None \<and> updatedAt w = now
            \<and> get s' projectId i = Some w
            \<and> (\<forall>arts2 tc2 now2. \<exists>w2 s2.
                  complete s' projectId i arts2 tc2 now2 = Inr (w2, s2)
                  \<and> status w2 = ''done'' \<and> artifacts w2 = arts2
                  \<and> assignedAgentId w2 = None \<and> get s2 projectId i = Some w2)"
  proof (intro exI conjI)
    show "complete s projectId i arts tc now = Inr (?w, ?s')" by (rule c)
    show "item_id ?w = i" by (rule idw)
    show "status ?w = ''done''" "artifacts ?w = arts" "assignedAgentId ?w = None"
      "updatedAt ?w = now"
      by (simp_all add: fields)
    show "get ?s' projectId i = Some ?w" by (rule g)
    show "\<forall>arts2 tc2 now2. \<exists>w2 s2.
        complete ?s' projectId i arts2 tc2 now2 = Inr (w2, s2)
        \<and> status w2 = ''done'' \<and> artifacts w2 = arts2 \<and> assignedAgentId w2 = None
        \<and> get s2 projectId i = Some w2"
      by (rule again)
  qed
qed

text \<open>\<open>complete\<close> of the queue without project scope, likewise.\<close>

lemma complete_g_absent:
  "i \<notin> item_id ` set (g_items q)
     \<longrightarrow> complete_g q i arts now = Inl (ItemNotFoundGlobal i)"
proof
  assume "i \<notin> item_id ` set (g_items q)"
  then have "findIndex (\<lambda>it. item_id it = i) (g_items q) = None"
    by (auto simp: findIndex_None_iff)
  then show "complete_g q i arts now = Inl (ItemNotFoundGlobal i)"
    by (simp add: complete_g_def update_g_result)
qed

lemma complete_g_present:
  "i \<in> item_id ` set (g_items q)
     \<longrightarrow> (\<exists>w q'. complete_g q i arts now = Inr (w, q')
            \<and> item_id w = i \<and> status w = ''done'' \<and> artifacts w = arts
            \<and> assignedAgentId w = None \<and> updatedAt w = now
            \<and> get_g q' i = Some w
            \<and> (\<forall>arts2 now2. \<exists>w2 q2.
                  complete_g q' i arts2 now2 = Inr (w2, q2)
                  \<and> status w2 = ''done'' \<and> artifacts w2 = arts2
                  \<and> assignedAgentId w2 = None \<and> get_g q2 i = Some w2))"
proof
  let ?u = "\<lambda>a. no_updates\<lparr>u_status := Some ''done'', u_artifacts := Some a,
                   u_assignedAgentId := Some None\<rparr>"
  have fields: "\<And>it a n. status (merge it (?u a) n) = ''done''
      \<and> artifacts (merge it (?u a) n) = a \<and> assignedAgentId (merge it (?u a) n) = None
      \<and> updatedAt (merge it (?u a) n) = n"
    by (simp add: merge_def no_updates_def)
  assume "i \<in> item_id ` set (g_items q)"
  then obtain k where k: "findIndex (\<lambda>it. item_id it = i) (g_items q) = Some k"
    using findIndex_id_iff [of item_id i "g_items q"] by blast
  let ?w = "merge (g_items q ! k) (?u arts) now"
  let ?q' = "q\<lparr>g_items := (g_items q)[k := ?w]\<rparr>"
  have c: "complete_g q i arts now = Inr (?w, ?q')"
    using k by (simp add: complete_g_def update_g_result)
  have g: "get_g ?q' i = Some ?w"
    by (rule get_g_after_update [OF k])
  from k have idw: "item_id ?w = i" by (simp add: findIndex_Some_iff)
  have again: "\<forall>arts2 now2. \<exists>w2 q2.
        complete_g ?q' i arts2 now2 = Inr (w2, q2)
        \<and> status w2 = ''done'' \<and> artifacts w2 = arts2 \<and> assignedAgentId w2 = None
        \<and> get_g q2 i = Some w2"
  proof (intro allI)
    fix arts2 now2
    from g have "?w \<in> set (g_items ?q')"
      unfolding get_g_def by (rule find_Some_mem [THEN conjunct1])
    with idw have "i \<in> item_id ` set (g_items ?q')"
      by (rule_tac x = ?w in image_eqI) simp_all
    then obtain k2 where k2: "findIndex (\<lambda>it. item_id it = i) (g_items ?q') = Some k2"
      using findIndex_id_iff [of item_id i "g_items ?q'"] by blast
    let ?w2 = "merge (g_items ?q' ! k2) (?u arts2) now2"
    let ?q2 = "?q'\<lparr>g_items := (g_items ?q')[k2 := ?w2]\<rparr>"
    have c2: "complete_g ?q' i arts2 now2 = Inr (?w2, ?q2)"
      using k2 by (simp only: complete_g_def update_g_result option.case)
    have g2: "get_g ?q2 i = Some ?w2"
      by (rule get_g_after_update [OF k2])
    show "\<exists>w2 q2. complete_g ?q' i arts2 now2 = Inr (w2, q2)
        \<and> status w2 = ''done'' \<and> artifacts w2 = arts2 \<and> assignedAgentId w2 = None
        \<and> get_g q2 i = Some w2"
    proof (intro exI conjI)
      show "complete_g ?q' i arts2 now2 = Inr (?w2, ?q2)" by (rule c2)
      show "status ?w2 = ''done''" "artifacts ?w2 = arts2" "assignedAgentId ?w2 = None"
        by (simp_all add: fields)
      show "get_g ?q2 i = Some ?w2" by (rule g2)
    qed
  qed
  show "\<exists>w q'. complete_g q i arts now = Inr (w, q')
            \<and> item_id w = i \<and> status w = ''done'' \<and> artifacts w = arts
            \<and> assignedAgentId w = None \<and> updatedAt w = now
            \<and> get_g q' i = Some w
            \<and> (\<forall>arts2 now2. \<exists>w2 q2.
                  complete_g q' i arts2 now2 = Inr (w2, q2)
                  \<and> status w2 = ''done'' \<and> artifacts w2 = arts2
                  \<and> assignedAgentId w2 = None \<and> get_g q2 i = Some w2)"
  proof (intro exI conjI)
    show "complete_g q i arts now = Inr (?w, ?q')" by (rule c)
    show "item_id ?w = i" by (rule idw)
    show "status ?w = ''done''" "artifacts ?w = arts" "assignedAgentId ?w = None"
      "updatedAt ?w = now"
      by (simp_all add: fields)
    show "get_g ?q' i = Some ?w" by (rule g)
    show "\<forall>arts2 now2. \<exists>w2 q2.
        complete_g ?q' i arts2 now2 = Inr (w2, q2)
        \<and> status w2 = ''done'' \<and> artifacts w2 = arts2 \<and> assignedAgentId w2 = None
        \<and> get_g q2 i = Some w2"
      by (rule again)
  qed
qed

text \<open>
  The two differ in one field: the project's \<open>complete\<close> records \<open>completedAt\<close>, the
  other leaves it as it was.
\<close>

lemma complete_completedAt:
  "findIndex (\<lambda>it. item_id it = i) (stored s projectId) = Some k
     \<Longrightarrow> map_sum id (completedAt \<circ> fst) (complete s projectId i arts tc now) = Inr (Some tc)"
  "findIndex (\<lambda>it. item_id it = i) (g_items q) = Some k
     \<Longrightarrow> map_sum id (completedAt \<circ> fst) (complete_g q i arts now)
           = Inr (completedAt (g_items q ! k))"
  by (simp_all add: complete_def update_result complete_g_def update_g_result merge_def
      no_updates_def)

text \<open>
  C4, as the code has it. In both queues \<open>complete\<close> is \<open>update\<close> with a fixed set of
  fields: it fails only when no item of the queue has the id. On an item of any status it
  sets the status to \<open>done\<close>, stores the artifacts given, clears \<open>assignedAgentId\<close>
  and sets \<open>updatedAt\<close> to the clock reading; \<open>get\<close> then returns the item so changed.
  Completing the same item again succeeds and stores the artifacts of the later call.
\<close>

theorem complete_any_status:
  "(i \<notin> item_id ` set (stored s projectId)
      \<longrightarrow> complete s projectId i arts tc now = Inl (ItemNotFound i projectId))
   \<and> (i \<in> item_id ` set (stored s projectId)
      \<longrightarrow> (\<exists>w s'. complete s projectId i arts tc now = Inr (w, s')
            \<and> item_id w = i \<and> status w = ''done'' \<and> artifacts w = arts
            \<and> assignedAgentId w = None \<and> updatedAt w = now
            \<and> get s' projectId i = Some w
            \<and> (\<forall>arts2 tc2 now2. \<exists>w2 s2.
                  complete s' projectId i arts2 tc2 now2 = Inr (w2, s2)
                  \<and> status w2 = ''done'' \<and> artifacts w2 = arts2
                  \<and> assignedAgentId w2 = None \<and> get s2 projectId i = Some w2)))
   \<and> (i \<notin> item_id ` set (g_items q)
      \<longrightarrow> complete_g q i arts now = Inl (ItemNotFoundGlobal i))
   \<and> (i \<in> item_id ` set (g_items q)
      \<longrightarrow> (\<exists>w q'. complete_g q i arts now = Inr (w, q')
            \<and> item_id w = i \<and> status w = ''done'' \<and> artifacts w = arts
            \<and> assignedAgentId w = None \<and> updatedAt w = now
            \<and> get_g q' i = Some w
            \<and> (\<forall>arts2 now2. \<exists>w2 q2.
                  complete_g q' i arts2 now2 = Inr (w2, q2)
                  \<and> status w2 = ''done'' \<and> artifacts w2 = arts2
                  \<and> assignedAgentId w2 = None \<and> get_g q2 i = Some w2)))"
  by (intro conjI complete_absent complete_present complete_g_absent complete_g_present)

text \<open>
  \<open>complete\<close> is not rejected on an item that is neither \<open>in_flight\<close> nor
  \<open>review\<close>: an item still in the inbox is completed, in either queue.
\<close>

theorem complete_any_status_counterexample:
  "map_option status (get inbox_store ''p'' ''id1'') = Some ''inbox''
   \<and> map_sum id (status \<circ> fst) (complete inbox_store ''p'' ''id1'' [] 2 2) = Inr ''done''
   \<and> map_option status (get_g inbox_queue ''id1'') = Some ''inbox''
   \<and> map_sum id (status \<circ> fst) (complete_g inbox_queue ''id1'' [] 2) = Inr ''done''"
  by (simp add: get_def inbox_store_items complete_def update_result merge_def no_updates_def
      make_item_def get_g_def inbox_queue_def enqueue_g_def empty_queue_def complete_g_def
      update_g_result Let_def)

theorem complete_any_status_witness:
  "''id1'' \<in> item_id ` set (stored inbox_store ''p'')
   \<and> ''id9'' \<notin> item_id ` set (stored inbox_store ''p'')
   \<and> ''id1'' \<in> item_id ` set (g_items inbox_queue)
   \<and> ''id9'' \<notin> item_id ` set (g_items inbox_queue)
   \<and> complete inbox_store ''p'' ''id9'' [] 2 2 = Inl (ItemNotFound ''id9'' ''p'')
   \<and> map_sum id (status \<circ> fst) (complete inbox_store ''p'' ''id1'' [] 2 2) = Inr ''done''
   \<and> complete_g inbox_queue ''id9'' [] 2 = Inl (ItemNotFoundGlobal ''id9'')
   \<and> map_sum id (status \<circ> fst) (complete_g inbox_queue ''id1'' [] 2) = Inr ''done''"
proof -
  have a: "''id1'' \<in> item_id ` set (stored inbox_store ''p'')"
    and b: "''id9'' \<notin> item_id ` set (stored inbox_store ''p'')"
    by (simp_all add: inbox_store_items make_item_def)
  have a': "''id1'' \<in> item_id ` set (g_items inbox_queue)"
    and b': "''id9'' \<notin> item_id ` set (g_items inbox_queue)"
    by (simp_all add: inbox_queue_def enqueue_g_def empty_queue_def make_item_def Let_def)
  note th9 = complete_any_status [of "''id9''" inbox_store "''p''" "[]" 2 2 inbox_queue]
  note th1 = complete_any_status [of "''id1''" inbox_store "''p''" "[]" 2 2 inbox_queue]
  from th9 [THEN conjunct1, THEN mp, OF b]
  have c: "complete inbox_store ''p'' ''id9'' [] 2 2 = Inl (ItemNotFound ''id9'' ''p'')" .
  from th9 [THEN conjunct2, THEN conjunct2, THEN conjunct1, THEN mp, OF b']
  have c': "complete_g inbox_queue ''id9'' [] 2 = Inl (ItemNotFoundGlobal ''id9'')" .
  from th1 [THEN conjunct2, THEN conjunct1, THEN mp, OF a]
  obtain w s' where "complete inbox_store ''p'' ''id1'' [] 2 2 = Inr (w, s')
    \<and> item_id w = ''id1'' \<and> status w = ''done''"
    by (elim exE conjE) simp
  then have d: "map_sum id (status \<circ> fst) (complete inbox_store ''p'' ''id1'' [] 2 2)
      = Inr ''done''"
    by simp
  from th1 [THEN conjunct2, THEN conjunct2, THEN conjunct2, THEN mp, OF a']
  obtain w' q' where "complete_g inbox_queue ''id1'' [] 2 = Inr (w', q')
    \<and> item_id w' = ''id1'' \<and> status w' = ''done''"
    by (elim exE conjE) simp
  then have d': "map_sum id (status \<circ> fst) (complete_g inbox_queue ''id1'' [] 2) = Inr ''done''"
    by simp
  from a b a' b' c d c' d' show ?thesis by (intro conjI)
qed

subsection \<open>ready\<close>

lemma merge_status_only:
  "merge it (no_updates\<lparr>u_status := Some v\<rparr>) now = it\<lparr>status := v, updatedAt := now\<rparr>"
  by (simp add: merge_def no_updates_def)

text \<open>
  C5, as the code has it. \<open>ready\<close> is \<open>update\<close> with the single field
  \<open>status: ready\<close>. It fails only when the id is not in the project's queue; on an item
  of any status, \<open>done\<close> and \<open>blocked\<close> included, it sets the status to \<open>ready\<close>
  and \<open>updatedAt\<close> to the clock reading, and changes nothing else.
\<close>

theorem ready_any_status:
  "(i \<notin> item_id ` set (stored s projectId)
      \<longrightarrow> ready s projectId i now = Inl (ItemNotFound i projectId))
   \<and> (\<forall>k. findIndex (\<lambda>it. item_id it = i) (stored s projectId) = Some k
      \<longrightarrow> ready s projectId i now =
            Inr ((stored s projectId ! k)\<lparr>status := ''ready'', updatedAt := now\<rparr>,
                 saveQueue s projectId
                   ((loadQueue s projectId)
                      \<lparr>items := (stored s projectId)
                         [k := (stored s projectId ! k)
                                 \<lparr>status := ''ready'', updatedAt := now\<rparr>]\<rparr>)))"
proof (intro conjI impI allI)
  assume "i \<notin> item_id ` set (stored s projectId)"
  then have "findIndex (\<lambda>it. item_id it = i) (stored s projectId) = None"
    by (auto simp: findIndex_None_iff)
  then show "ready s projectId i now = Inl (ItemNotFound i projectId)"
    by (simp add: ready_def update_result)
next
  fix k
  assume "findIndex (\<lambda>it. item_id it = i) (stored s projectId) = Some k"
  then show "ready s projectId i now =
            Inr ((stored s projectId ! k)\<lparr>status := ''ready'', updatedAt := now\<rparr>,
                 saveQueue s projectId
                   ((loadQueue s projectId)
                      \<lparr>items := (stored s projectId)
                         [k := (stored s projectId ! k)
                                 \<lparr>status := ''ready'', updatedAt := now\<rparr>]\<rparr>))"
    by (simp add: ready_def update_result merge_status_only)
qed

text \<open>\<open>ready\<close> on an item that is \<open>done\<close> is not rejected: the item is ready again.\<close>

theorem ready_any_status_counterexample:
  "map_option status (get done_store ''p'' ''id1'') = Some ''done''
   \<and> map_sum id (status \<circ> fst) (ready done_store ''p'' ''id1'' 3) = Inr ''ready''"
  by (simp add: get_def done_store_items ready_def update_result merge_status_only make_item_def)

theorem ready_any_status_witness:
  "''id9'' \<notin> item_id ` set (stored done_store ''p'')
   \<and> findIndex (\<lambda>it. item_id it = ''id1'') (stored done_store ''p'') = Some 0
   \<and> ready done_store ''p'' ''id9'' 3 = Inl (ItemNotFound ''id9'' ''p'')
   \<and> map_sum id (\<lambda>r. (status (fst r), updatedAt (fst r))) (ready done_store ''p'' ''id1'' 3)
       = Inr (''ready'', 3)"
proof -
  have a: "''id9'' \<notin> item_id ` set (stored done_store ''p'')"
    and b: "findIndex (\<lambda>it. item_id it = ''id1'') (stored done_store ''p'') = Some 0"
    by (simp_all add: done_store_items make_item_def)
  note r = ready_any_status [of _ done_store "''p''" 3]
  from r [THEN conjunct1, THEN mp, OF a] r [THEN conjunct2, THEN spec, THEN mp, OF b] a b
  show ?thesis by simp
qed

subsection \<open>Timestamps and status changes of the mutations\<close>

lemma claim_Some_result:
  assumes ids: "distinct (map item_id (stored s projectId))"
    and cl: "claim s projectId agentId now = (Some w, s')"
  shows "\<exists>k<length (stored s projectId).
           status (stored s projectId ! k) = ''ready''
           \<and> w = (stored s projectId ! k)
                   \<lparr>status := ''in_flight'', assignedAgentId := Some agentId, updatedAt := now\<rparr>
           \<and> s' = saveQueue s projectId
                    ((loadQueue s projectId)\<lparr>items := (stored s projectId)[k := w]\<rparr>)"
proof (cases "scan priorityOrder (stored s projectId)")
  case None
  with cl show ?thesis by (simp add: claim_def)
next
  case (Some nextItem)
  from scan_Some [OF Some] obtain k where k: "k < length (stored s projectId)"
    "nextItem = stored s projectId ! k" "status nextItem = ''ready''"
    by blast
  have idx: "findIndex (\<lambda>it. item_id it = item_id nextItem) (stored s projectId) = Some k"
    unfolding k(2) by (rule findIndex_distinct [OF ids k(1)])
  from cl Some idx have "w = (stored s projectId ! k)
      \<lparr>status := ''in_flight'', assignedAgentId := Some agentId, updatedAt := now\<rparr>"
    and "s' = saveQueue s projectId
        ((loadQueue s projectId)\<lparr>items := (stored s projectId)
           [k := (stored s projectId ! k)
              \<lparr>status := ''in_flight'', assignedAgentId := Some agentId, updatedAt := now\<rparr>]\<rparr>)"
    by (auto simp: claim_def Let_def)
  with k show ?thesis by auto
qed

text \<open>
  C6, as the code has it. \<open>enqueue\<close> creates the item with status \<open>inbox\<close> and the
  two clock readings as \<open>createdAt\<close> and \<open>updatedAt\<close>. \<open>update\<close>, \<open>ready\<close>,
  \<open>complete\<close> and \<open>claim\<close> replace exactly the item they address and set its
  \<open>updatedAt\<close> to the clock reading. \<open>ready\<close>, \<open>complete\<close> and \<open>claim\<close> leave
  \<open>createdAt\<close> as it was, so \<open>updatedAt\<close> is not before \<open>createdAt\<close> whenever the
  clock reading is not before it; \<open>update\<close> leaves \<open>createdAt\<close> and the status as they
  were unless its fields name them, and then stores what it is given. \<open>ready\<close> and
  \<open>complete\<close> store the status \<open>ready\<close> and \<open>done\<close> whatever the status was.
  \<open>claim\<close>, on a queue whose ids are pairwise different, moves the status along the
  edge from \<open>ready\<close> to \<open>in_flight\<close> only.
\<close>

theorem mutations_timestamps_and_status:
  assumes ids: "distinct (map item_id (stored s projectId))"
  shows "(\<exists>w s'. enqueue s projectId item newId t1 t2 = (w, s')
            \<and> status w = ''inbox'' \<and> createdAt w = t1 \<and> updatedAt w = t2)
       \<and> (\<forall>k. findIndex (\<lambda>it. item_id it = i) (stored s projectId) = Some k \<longrightarrow>
             (\<exists>w s'. update s projectId i u now = Inr (w, s')
                \<and> stored s' projectId = (stored s projectId)[k := w]
                \<and> updatedAt w = now
                \<and> createdAt w = (case u_createdAt u of
                                    None \<Rightarrow> createdAt (stored s projectId ! k) | Some c \<Rightarrow> c)
                \<and> status w = (case u_status u of
                                 None \<Rightarrow> status (stored s projectId ! k) | Some v \<Rightarrow> v))
           \<and> (\<exists>w s'. ready s projectId i now = Inr (w, s')
                \<and> stored s' projectId = (stored s projectId)[k := w]
                \<and> updatedAt w = now \<and> createdAt w = createdAt (stored s projectId ! k)
                \<and> status w = ''ready''
                \<and> (createdAt (stored s projectId ! k) \<le> now \<longrightarrow> createdAt w \<le> updatedAt w))
           \<and> (\<exists>w s'. complete s projectId i arts tc now = Inr (w, s')
                \<and> stored s' projectId = (stored s projectId)[k := w]
                \<and> updatedAt w = now \<and> createdAt w = createdAt (stored s projectId ! k)
                \<and> status w = ''done''
                \<and> (createdAt (stored s projectId ! k) \<le> now \<longrightarrow> createdAt w \<le> updatedAt w)))
       \<and> (\<forall>w s'. claim s projectId agentId now = (Some w, s') \<longrightarrow>
             (\<exists>k<length (stored s projectId).
                stored s' projectId = (stored s projectId)[k := w]
                \<and> status (stored s projectId ! k) = ''ready'' \<and> status w = ''in_flight''
                \<and> spec_edge (status (stored s projectId ! k)) (status w)
                \<and> updatedAt w = now \<and> createdAt w = createdAt (stored s projectId ! k)
                \<and> (createdAt (stored s projectId ! k) \<le> now \<longrightarrow> createdAt w \<le> updatedAt w)))"
proof (intro conjI allI impI)
  show "\<exists>w s'. enqueue s projectId item newId t1 t2 = (w, s')
            \<and> status w = ''inbox'' \<and> createdAt w = t1 \<and> updatedAt w = t2"
    by (simp add: enqueue_def Let_def make_item_def)
next
  fix k
  assume k: "findIndex (\<lambda>it. item_id it = i) (stored s projectId) = Some k"
  show "\<exists>w s'. update s projectId i u now = Inr (w, s')
                \<and> stored s' projectId = (stored s projectId)[k := w]
                \<and> updatedAt w = now
                \<and> createdAt w = (case u_createdAt u of
                                    None \<Rightarrow> createdAt (stored s projectId ! k) | Some c \<Rightarrow> c)
                \<and> status w = (case u_status u of
                                 None \<Rightarrow> status (stored s projectId ! k) | Some v \<Rightarrow> v)"
    using k by (simp add: update_result merge_def)
  show "\<exists>w s'. ready s projectId i now = Inr (w, s')
                \<and> stored s' projectId = (stored s projectId)[k := w]
                \<and> updatedAt w = now \<and> createdAt w = createdAt (stored s projectId ! k)
                \<and> status w = ''ready''
                \<and> (createdAt (stored s projectId ! k) \<le> now \<longrightarrow> createdAt w \<le> updatedAt w)"
    using k by (simp add: ready_def update_result merge_status_only)
  show "\<exists>w s'. complete s projectId i arts tc now = Inr (w, s')
                \<and> stored s' projectId = (stored s projectId)[k := w]
                \<and> updatedAt w = now \<and> createdAt w = createdAt (stored s projectId ! k)
                \<and> status w = ''done''
                \<and> (createdAt (stored s projectId ! k) \<le> now \<longrightarrow> createdAt w \<le> updatedAt w)"
    using k by (simp add: complete_def update_result merge_def no_updates_def)
next
  fix w s'
  assume "claim s projectId agentId now = (Some w, s')"
  from claim_Some_result [OF ids this] obtain k where k: "k < length (stored s projectId)"
    "status (stored s projectId ! k) = ''ready''"
    "w = (stored s projectId ! k)
           \<lparr>status := ''in_flight'', assignedAgentId := Some agentId, updatedAt := now\<rparr>"
    "s' = saveQueue s projectId
            ((loadQueue s projectId)\<lparr>items := (stored s projectId)[k := w]\<rparr>)"
    by blast
  have "spec_edge ''ready'' ''in_flight''" by (simp add: spec_edge_def)
  with k show "\<exists>k<length (stored s projectId).
                stored s' projectId = (stored s projectId)[k := w]
                \<and> status (stored s projectId ! k) = ''ready'' \<and> status w = ''in_flight''
                \<and> spec_edge (status (stored s projectId ! k)) (status w)
                \<and> updatedAt w = now \<and> createdAt w = createdAt (stored s projectId ! k)
                \<and> (createdAt (stored s projectId ! k) \<le> now \<longrightarrow> createdAt w \<le> updatedAt w)"
    by (intro exI [of _ k]) simp
qed

text \<open>
  \<open>update\<close> takes an item that is \<open>done\<close> back to \<open>inbox\<close>, which is no edge of the
  state machine, and overwrites \<open>createdAt\<close> with an instant after \<open>updatedAt\<close>.
\<close>

theorem mutations_timestamps_and_status_counterexample:
  "map_option status (get done_store ''p'' ''id1'') = Some ''done''
   \<and> map_option createdAt (get done_store ''p'' ''id1'') = Some 1
   \<and> map_sum id (status \<circ> fst)
       (update done_store ''p'' ''id1''
          (no_updates\<lparr>u_status := Some ''inbox'', u_createdAt := Some 99\<rparr>) 5)
     = Inr ''inbox''
   \<and> map_sum id (createdAt \<circ> fst)
       (update done_store ''p'' ''id1''
          (no_updates\<lparr>u_status := Some ''inbox'', u_createdAt := Some 99\<rparr>) 5)
     = Inr 99
   \<and> map_sum id (updatedAt \<circ> fst)
       (update done_store ''p'' ''id1''
          (no_updates\<lparr>u_status := Some ''inbox'', u_createdAt := Some 99\<rparr>) 5)
     = Inr 5
   \<and> \<not> spec_edge ''done'' ''inbox'' \<and> \<not> (99::nat) \<le> 5"
  by (simp add: get_def done_store_items update_result merge_def no_updates_def make_item_def
      spec_edge_def)

theorem mutations_timestamps_and_status_witness:
  "distinct (map item_id (stored scenarioA ''p''))
   \<and> findIndex (\<lambda>it. item_id it = ''id1'') (stored scenarioA ''p'') = Some 0
   \<and> createdAt (stored scenarioA ''p'' ! 0) \<le> 7
   \<and> (\<exists>w s'. complete scenarioA ''p'' ''id1'' [] 7 7 = Inr (w, s')
          \<and> status w = ''done'' \<and> createdAt w \<le> updatedAt w)
   \<and> (\<exists>w s'. claim scenarioA ''p'' ''agent-1'' 7 = (Some w, s')
          \<and> status w = ''in_flight'' \<and> createdAt w \<le> updatedAt w)"
proof -
  let ?xs = "stored scenarioA ''p''"
  have ids: "distinct (map item_id ?xs)"
    by (simp add: scenarioA_items make_item_def)
  have idx: "findIndex (\<lambda>it. item_id it = ''id1'') ?xs = Some 0"
    by (simp add: scenarioA_items make_item_def)
  have le0: "createdAt (?xs ! 0) \<le> 7"
    by (simp add: scenarioA_items make_item_def)
  have le: "\<forall>k<length ?xs. createdAt (?xs ! k) \<le> 7"
    by (simp add: scenarioA_items make_item_def less_Suc_eq numeral_3_eq_3)
  note th = mutations_timestamps_and_status [OF ids,
      of "titled ''T'' ''low''" "''id4''" 7 7 "''id1''" no_updates 7 "[]" 7 "''agent-1''"]
  from th [THEN conjunct2, THEN conjunct1, THEN spec, THEN mp, OF idx, THEN conjunct2,
      THEN conjunct2] le0
  have c: "\<exists>w s'. complete scenarioA ''p'' ''id1'' [] 7 7 = Inr (w, s')
          \<and> status w = ''done'' \<and> createdAt w \<le> updatedAt w"
    by (elim exE conjE) (intro exI conjI, assumption, assumption, simp)
  obtain w0 s0 where cl: "claim scenarioA ''p'' ''agent-1'' 7 = (Some w0, s0)"
    by (simp add: claim_def scenarioA_items priorityOrder_def make_item_def titled_def Let_def)
  from th [THEN conjunct2, THEN conjunct2, THEN spec, THEN spec, THEN mp, OF cl]
  obtain k where "k < length ?xs" "status w0 = ''in_flight''" "updatedAt w0 = 7"
    "createdAt w0 = createdAt (?xs ! k)"
    by blast
  with le have "status w0 = ''in_flight'' \<and> createdAt w0 \<le> updatedAt w0" by simp
  with cl have d: "\<exists>w s'. claim scenarioA ''p'' ''agent-1'' 7 = (Some w, s')
          \<and> status w = ''in_flight'' \<and> createdAt w \<le> updatedAt w"
    by blast
  from ids idx le0 c d show ?thesis by (intro conjI)
qed

subsection \<open>stats\<close>

lemma five_step:
  "(if s = ''inbox'' then 1 else 0) + (if s = ''ready'' then 1 else 0)
     + (if s = ''in_flight'' then 1 else 0) + (if s = ''done'' then 1 else 0)
     + (if s = ''blocked'' then 1 else 0)
   = (if s \<in> set fixed_buckets then 1 else (0::nat))"
  by (simp add: fixed_buckets_def)

lemma count_Cons:
  "count_status st (x # xs) = (if status x = st then 1 else 0) + count_status st xs"
  by (simp add: count_status_def)

lemma count_status_count_list:
  "count_status st xs = count_list (map status xs) st"
  by (induction xs) (simp_all add: count_status_def)

lemma five_buckets:
  "count_status ''inbox'' xs + count_status ''ready'' xs + count_status ''in_flight'' xs
     + count_status ''done'' xs + count_status ''blocked'' xs
   = length (filter (\<lambda>i. status i \<in> set fixed_buckets) xs)"
proof (induction xs)
  case Nil
  then show ?case by (simp add: count_status_def)
next
  case (Cons x xs)
  have "count_status ''inbox'' (x # xs) + count_status ''ready'' (x # xs)
      + count_status ''in_flight'' (x # xs) + count_status ''done'' (x # xs)
      + count_status ''blocked'' (x # xs)
    = ((if status x = ''inbox'' then 1 else 0) + (if status x = ''ready'' then 1 else 0)
     + (if status x = ''in_flight'' then 1 else 0) + (if status x = ''done'' then 1 else 0)
     + (if status x = ''blocked'' then 1 else 0))
     + (count_status ''inbox'' xs + count_status ''ready'' xs + count_status ''in_flight'' xs
     + count_status ''done'' xs + count_status ''blocked'' xs)"
    unfolding count_Cons by (simp only: ac_simps)
  also have "\<dots> = (if status x \<in> set fixed_buckets then 1 else 0)
      + length (filter (\<lambda>i. status i \<in> set fixed_buckets) xs)"
    unfolding five_step Cons.IH ..
  also have "\<dots> = length (filter (\<lambda>i. status i \<in> set fixed_buckets) (x # xs))"
    by simp
  finally show ?case .
qed

text \<open>The five counts of the project-scoped \<open>stats\<close>.\<close>

lemma stats_byStatus:
  "byStatus (stats s projectId)
     = map (\<lambda>k. (k, count_list (map status (stored s projectId)) k)) fixed_buckets"
  by (simp add: stats_def list_items_def Let_def fixed_buckets_def count_status_count_list)

lemma stats_sum:
  "sum_list (map snd (byStatus (stats s projectId)))
     = length (filter (\<lambda>i. status i \<in> set fixed_buckets) (stored s projectId))"
  using five_buckets [of "stored s projectId"]
  by (simp add: stats_def list_items_def Let_def)

text \<open>The object of the other \<open>stats\<close>, key by key.\<close>

lemma map_of_bump_own:
  "map_of (bump_own k m) k' =
     (if k' = k then Some (case map_of m k of None \<Rightarrow> first_write k | Some v \<Rightarrow> plus_one v)
      else map_of m k')"
  by (induction k m rule: bump_own.induct) auto

lemma keys_bump_own: "fst ` set (bump_own k m) = insert k (fst ` set m)"
  by (induction k m rule: bump_own.induct) auto

lemma distinct_bump_own: "distinct (map fst m) \<Longrightarrow> distinct (map fst (bump_own k m))"
proof (induction k m rule: bump_own.induct)
  case (1 k)
  then show ?case by simp
next
  case (2 k k' v m)
  have "k' \<noteq> k \<Longrightarrow> k' \<notin> fst ` set m \<Longrightarrow> k' \<notin> fst ` set (bump_own k m)"
    unfolding keys_bump_own by simp
  with 2 show ?case by auto
qed

lemma plus_one_Count [simp]: "plus_one (Count c) = Count (Suc c)"
  by simp

lemma map_of_byStatus:
  "map_of (fold (\<lambda>it m. bump (status it) m) xs []) k =
     (if k = ''__proto__'' \<or> k \<notin> status ` set xs then None
      else Some (if k \<in> set inherited_functions then Text (count_list (map status xs) k)
                 else Count (count_list (map status xs) k)))"
proof (induction xs arbitrary: k rule: rev_induct)
  case Nil
  then show ?case by simp
next
  case (snoc x xs)
  let ?m = "fold (\<lambda>it m. bump (status it) m) xs []"
  have f: "fold (\<lambda>it m. bump (status it) m) (xs @ [x]) [] = bump (status x) ?m"
    by simp
  show ?case
  proof (cases "status x = ''__proto__''")
    case True
    then have "bump (status x) ?m = ?m" by (simp add: bump_def)
    with snoc True show ?thesis unfolding f by auto
  next
    case False
    then have b: "bump (status x) ?m = bump_own (status x) ?m" by (simp add: bump_def)
    show ?thesis
    proof (cases "k = status x")
      case ne: False
      then show ?thesis unfolding f b map_of_bump_own using snoc by auto
    next
      case eq: True
      show ?thesis
      proof (cases "status x \<in> status ` set xs")
        case in_xs: True
        with snoc [of "status x"] False eq show ?thesis
          unfolding f b map_of_bump_own by simp
      next
        case notin: False
        then have "count_list (map status xs) (status x) = 0"
          by (simp add: count_list_0_iff)
        with snoc [of "status x"] False eq notin show ?thesis
          unfolding f b map_of_bump_own by (simp add: first_write_def)
      qed
    qed
  qed
qed

lemma distinct_bump: "distinct (map fst m) \<Longrightarrow> distinct (map fst (bump k m))"
  by (simp add: bump_def distinct_bump_own)

lemma keys_bump:
  "fst ` set (bump k m) = (if k = ''__proto__'' then fst ` set m else insert k (fst ` set m))"
  by (simp add: bump_def keys_bump_own)

lemma keys_byStatus:
  "fst ` set (fold (\<lambda>it m. bump (status it) m) xs []) = status ` set xs - {''__proto__''}"
proof (induction xs rule: rev_induct)
  case Nil
  then show ?case by simp
next
  case (snoc x xs)
  then show ?case by (auto simp: keys_bump)
qed

lemma distinct_byStatus:
  "distinct (map fst (fold (\<lambda>it m. bump (status it) m) xs []))"
proof (induction xs rule: rev_induct)
  case Nil
  then show ?case by simp
next
  case (snoc x xs)
  then show ?case by (simp add: distinct_bump)
qed

text \<open>The sum of the counts: the items whose status is no member of \<open>Object.prototype\<close>.\<close>

lemma counts_bump_own:
  assumes "\<forall>e\<in>set m. (\<exists>n. snd e = Text n) \<longleftrightarrow> fst e \<in> set inherited_functions"
  shows "(\<forall>e\<in>set (bump_own k m). (\<exists>n. snd e = Text n) \<longleftrightarrow> fst e \<in> set inherited_functions)
       \<and> counts_sum (bump_own k m)
           = counts_sum m + (if k \<in> set inherited_functions then 0 else 1)"
  using assms
proof (induction k m rule: bump_own.induct)
  case (1 k)
  then show ?case by (simp add: counts_sum_def first_write_def)
next
  case (2 k k' v m)
  show ?case
  proof (cases "k' = k")
    case True
    with 2(2) show ?thesis by (cases v) (auto simp: counts_sum_def)
  next
    case False
    with 2 show ?thesis by (auto simp: counts_sum_def)
  qed
qed

lemma counts_byStatus:
  "(\<forall>e\<in>set (fold (\<lambda>it m. bump (status it) m) xs []).
       (\<exists>n. snd e = Text n) \<longleftrightarrow> fst e \<in> set inherited_functions)
   \<and> counts_sum (fold (\<lambda>it m. bump (status it) m) xs [])
       = length (filter (\<lambda>it. status it \<notin> set object_prototype_names) xs)"
proof (induction xs rule: rev_induct)
  case Nil
  then show ?case by (simp add: counts_sum_def)
next
  case (snoc x xs)
  let ?m = "fold (\<lambda>it m. bump (status it) m) xs []"
  from snoc have t: "\<forall>e\<in>set ?m. (\<exists>n. snd e = Text n) \<longleftrightarrow> fst e \<in> set inherited_functions"
    and c: "counts_sum ?m = length (filter (\<lambda>it. status it \<notin> set object_prototype_names) xs)"
    by simp_all
  show ?case
  proof (cases "status x = ''__proto__''")
    case True
    with t c show ?thesis by (simp add: bump_def object_prototype_names_def)
  next
    case False
    with counts_bump_own [OF t, of "status x"] c show ?thesis
      by (simp add: bump_def object_prototype_names_def)
  qed
qed

lemma length_filter_eq_iff:
  "length (filter P xs) = length xs \<longleftrightarrow> (\<forall>x\<in>set xs. P x)"
proof
  assume "length (filter P xs) = length xs"
  then show "\<forall>x\<in>set xs. P x"
    using length_filter_less [of _ xs P] by fastforce
next
  assume "\<forall>x\<in>set xs. P x"
  then show "length (filter P xs) = length xs" by simp
qed

text \<open>
  C10, as the code has it. \<open>stats\<close> of the project-scoped queue reports the number of
  items as the total, and counts under exactly the five keys inbox, ready, in_flight, done
  and blocked, each the number of items of that status: when some item of the queue is in
  planning or in review, the total is greater than the sum of the five counts.

  \<open>stats\<close> of the queue without project scope reports the number of items as the
  total, and no key twice. When no item has a status that names a member of
  \<open>Object.prototype\<close>, its keys are the statuses that occur and each holds the number
  of items of that status. The sum of its counts is the total exactly when no item has a
  status that names a member of \<open>Object.prototype\<close>.
\<close>

theorem stats_buckets_and_total:
  "total (stats s projectId) = length (stored s projectId)
   \<and> byStatus (stats s projectId)
       = map (\<lambda>k. (k, count_list (map status (stored s projectId)) k)) fixed_buckets
   \<and> ((\<exists>it\<in>set (stored s projectId). status it = ''planning'' \<or> status it = ''review'')
      \<longrightarrow> sum_list (map snd (byStatus (stats s projectId))) < total (stats s projectId))
   \<and> g_total (stats_global q) = length (g_items q)
   \<and> distinct (map fst (g_byStatus (stats_global q)))
   \<and> ((\<forall>it\<in>set (g_items q). status it \<notin> set object_prototype_names) \<longrightarrow>
        set (map fst (g_byStatus (stats_global q))) = status ` set (g_items q)
        \<and> (\<forall>k\<in>status ` set (g_items q).
              map_of (g_byStatus (stats_global q)) k
                = Some (Count (count_list (map status (g_items q)) k))))
   \<and> (counts_sum (g_byStatus (stats_global q)) = g_total (stats_global q)
        \<longleftrightarrow> (\<forall>it\<in>set (g_items q). status it \<notin> set object_prototype_names))"
proof (intro conjI impI ballI)
  let ?xs = "stored s projectId"
  show t: "total (stats s projectId) = length ?xs"
    by (simp add: stats_def list_items_def Let_def)
  show "byStatus (stats s projectId)
       = map (\<lambda>k. (k, count_list (map status ?xs) k)) fixed_buckets"
    by (rule stats_byStatus)
  show "g_total (stats_global q) = length (g_items q)"
    by (simp add: stats_global_def)
  show "distinct (map fst (g_byStatus (stats_global q)))"
    by (simp add: stats_global_def distinct_byStatus)
  show "counts_sum (g_byStatus (stats_global q)) = g_total (stats_global q)
        \<longleftrightarrow> (\<forall>it\<in>set (g_items q). status it \<notin> set object_prototype_names)"
    using counts_byStatus [of "g_items q"]
    by (simp add: stats_global_def length_filter_eq_iff)
  {
    assume "\<exists>it\<in>set ?xs. status it = ''planning'' \<or> status it = ''review''"
    then obtain it where it: "it \<in> set ?xs" "status it = ''planning'' \<or> status it = ''review''"
      by blast
    then have "status it \<notin> set fixed_buckets"
      by (auto simp: fixed_buckets_def)
    with it(1) have "length (filter (\<lambda>i. status i \<in> set fixed_buckets) ?xs) < length ?xs"
      by (rule length_filter_less)
    then show "sum_list (map snd (byStatus (stats s projectId))) < total (stats s projectId)"
      unfolding t stats_sum .
  }
  assume ok: "\<forall>it\<in>set (g_items q). status it \<notin> set object_prototype_names"
  then have np: "''__proto__'' \<notin> status ` set (g_items q)"
    by (auto simp: object_prototype_names_def)
  then show "set (map fst (g_byStatus (stats_global q))) = status ` set (g_items q)"
    by (simp add: stats_global_def keys_byStatus)
  fix k
  assume k: "k \<in> status ` set (g_items q)"
  with ok have "k \<notin> set inherited_functions" "k \<noteq> ''__proto__''"
    by (auto simp: object_prototype_names_def)
  with k show "map_of (g_byStatus (stats_global q)) k
                = Some (Count (count_list (map status (g_items q)) k))"
    by (simp add: stats_global_def map_of_byStatus)
qed

text \<open>
  The sum of the counts is not always the total. A task whose status \<open>update\<close> has set
  to \<open>__proto__\<close> is counted in the total and in no bucket: the object stays empty. A
  task with the status \<open>toString\<close> gets a bucket that holds a text, not a count.
\<close>

theorem stats_buckets_and_total_counterexample:
  "map status (g_items proto_queue) = [''__proto__'']
   \<and> g_total (stats_global proto_queue) = 1
   \<and> g_byStatus (stats_global proto_queue) = []
   \<and> counts_sum (g_byStatus (stats_global proto_queue)) = 0
   \<and> map status (g_items toString_queue) = [''toString'']
   \<and> g_total (stats_global toString_queue) = 1
   \<and> g_byStatus (stats_global toString_queue) = [(''toString'', Text 1)]
   \<and> counts_sum (g_byStatus (stats_global toString_queue)) = 0"
  by code_simp

lemma planning_store_items:
  "stored planning_store ''p'' =
     [make_item (titled ''Low'' ''low'') ''id1'' 1 1 \<lparr>status := ''planning'', updatedAt := 7\<rparr>,
      make_item (titled ''Urgent'' ''urgent'') ''id2'' 2 2 \<lparr>status := ''ready'', updatedAt := 5\<rparr>,
      make_item (titled ''Medium'' ''medium'') ''id3'' 3 3 \<lparr>status := ''ready'', updatedAt := 6\<rparr>]"
  by (simp add: planning_store_def update_result scenarioA_items merge_status_only make_item_def)

theorem stats_buckets_and_total_witness:
  "(\<exists>it\<in>set (stored planning_store ''p''). status it = ''planning'' \<or> status it = ''review'')
   \<and> set (map status (g_items planning_queue)) \<inter> set object_prototype_names = {}
   \<and> map status (g_items planning_queue) = [''planning'', ''ready'', ''ready'']
   \<and> total (stats planning_store ''p'') = 3
   \<and> byStatus (stats planning_store ''p'')
       = [(''inbox'', 0), (''ready'', 2), (''in_flight'', 0), (''done'', 0), (''blocked'', 0)]
   \<and> sum_list (map snd (byStatus (stats planning_store ''p''))) < 3
   \<and> g_byStatus (stats_global planning_queue) = [(''planning'', Count 1), (''ready'', Count 2)]
   \<and> g_total (stats_global planning_queue) = 3
   \<and> counts_sum (g_byStatus (stats_global planning_queue)) = 3"
proof -
  have a: "\<exists>it\<in>set (stored planning_store ''p''). status it = ''planning'' \<or> status it = ''review''"
    by (simp add: planning_store_items make_item_def)
  have st: "map status (g_items planning_queue) = [''planning'', ''ready'', ''ready'']"
    by (simp add: planning_queue_def planning_store_items make_item_def)
  have b: "\<forall>it\<in>set (g_items planning_queue). status it \<notin> set object_prototype_names"
    by (simp add: planning_queue_def planning_store_items make_item_def
        object_prototype_names_def inherited_functions_def)
  have b': "set (map status (g_items planning_queue)) \<inter> set object_prototype_names = {}"
    unfolding st by (simp add: object_prototype_names_def inherited_functions_def)
  note th = stats_buckets_and_total [of planning_store "''p''" planning_queue]
  have t: "total (stats planning_store ''p'') = 3"
    using th [THEN conjunct1] by (simp add: planning_store_items)
  have bs: "byStatus (stats planning_store ''p'')
       = [(''inbox'', 0), (''ready'', 2), (''in_flight'', 0), (''done'', 0), (''blocked'', 0)]"
    by code_simp
  have lt: "sum_list (map snd (byStatus (stats planning_store ''p''))) < 3"
    using th [THEN conjunct2, THEN conjunct2, THEN conjunct1, THEN mp, OF a] t by simp
  have g: "g_byStatus (stats_global planning_queue) = [(''planning'', Count 1), (''ready'', Count 2)]"
    by code_simp
  have gt: "g_total (stats_global planning_queue) = 3"
    by (simp add: stats_global_def planning_queue_def planning_store_items)
  have cs: "counts_sum (g_byStatus (stats_global planning_queue)) = 3"
    using th [THEN conjunct2, THEN conjunct2, THEN conjunct2, THEN conjunct2, THEN conjunct2,
      THEN conjunct2, THEN iffD2, OF b] gt by simp
  from a b' st t bs lt g gt cs show ?thesis by (intro conjI)
qed

section \<open>Properties of the agent manager and the executor\<close>

subsection \<open>checkCompletion\<close>

text \<open>
  C7. For a session that the agent manager knows, \<open>checkCompletion\<close> answers from the
  two marker files alone and changes nothing: when the completion marker is a file of the
  artifacts directory, the answer is \<open>completed\<close> with the content of that file,
  whether or not the blocked marker exists; when there is no completion marker and the
  blocked marker is a file of the workspace, the answer is \<open>blocked\<close> with the content
  of that file; when neither exists, the answer is \<open>working\<close>.
\<close>

theorem checkCompletion_markers:
  assumes "map_of (sessions w) aid = Some sess"
  shows "(\<forall>c. map_of (files w) (s_artifactsDir sess, ''COMPLETION.md'') = Some (File c)
            \<longrightarrow> checkCompletion w aid = Some (Completed c))
       \<and> (\<forall>c. map_of (files w) (s_artifactsDir sess, ''COMPLETION.md'') = None
              \<and> map_of (files w) (s_workspaceDir sess, ''BLOCKED.md'') = Some (File c)
            \<longrightarrow> checkCompletion w aid = Some (Blocked c))
       \<and> (map_of (files w) (s_artifactsDir sess, ''COMPLETION.md'') = None
              \<and> map_of (files w) (s_workspaceDir sess, ''BLOCKED.md'') = None
            \<longrightarrow> checkCompletion w aid = Some Working)"
  using assms by (simp add: checkCompletion_def access_def readFile_def)

lemma scenarioC_session:
  "map_of (sessions scenarioC) ''agent'' =
     Some \<lparr>s_id = ''agent'', s_workItemId = ''id1'', s_status = ''starting'',
           s_workspaceDir = ''data/agents/agent/workspace'',
           s_artifactsDir = ''data/agents/agent/artifacts'',
           s_startedAt = 10, s_lastActivityAt = 10\<rparr>"
  by (simp add: scenarioC_def spawn_def createWorkspace_def world0_def task1_def make_item_def
      path_join_def AGENTS_DIR_def Let_def)

lemma scenarioC_files:
  "map fst (files scenarioC) =
     [(''data/agents/agent/workspace'', ''AGENTS.md''),
      (''data/agents/agent/workspace'', ''WORK_ITEM.json''),
      (''data/agents/agent/workspace'', ''BLOCKED.md'')]"
  by (simp add: scenarioC_def spawn_def createWorkspace_def world0_def writeFile_def
      path_join_def AGENTS_DIR_def Let_def)

theorem checkCompletion_markers_witness:
  "map_of (sessions scenarioC) ''agent'' \<noteq> None
   \<and> map_of (files scenarioC) (''data/agents/agent/artifacts'', ''COMPLETION.md'') = None
   \<and> map_of (files scenarioC) (''data/agents/agent/workspace'', ''BLOCKED.md'')
        = Some (File ''need credentials'')
   \<and> checkCompletion scenarioC ''agent'' = Some (Blocked ''need credentials'')"
proof -
  have a: "map_of (files scenarioC) (''data/agents/agent/artifacts'', ''COMPLETION.md'') = None"
    unfolding map_of_eq_None_iff set_map [symmetric] scenarioC_files by simp
  have b: "map_of (files scenarioC) (''data/agents/agent/workspace'', ''BLOCKED.md'')
        = Some (File ''need credentials'')"
    by (simp add: scenarioC_def spawn_def createWorkspace_def world0_def writeFile_def
      path_join_def AGENTS_DIR_def Let_def)
  from checkCompletion_markers [OF scenarioC_session, THEN conjunct2, THEN conjunct1,
      THEN spec, of "''need credentials''"] a b
  have "checkCompletion scenarioC ''agent'' = Some (Blocked ''need credentials'')"
    by simp
  with a b scenarioC_session show ?thesis by simp
qed

subsection \<open>What an operation leaves unchanged\<close>

lemma map_of_map_set [simp]: "map_of (map_set k v m) k = Some v"
  by (induction m) auto

lemma length_map_set: "length (map_set k v m) \<le> Suc (length m)"
  by (induction m) auto

lemma length_map_delete: "length (map_delete k m) \<le> length m"
  by (simp add: map_delete_def)

lemma spawn_frame:
  "running (snd (spawn w it)) = running w"
  "pendingSpawns (snd (spawn w it)) = pendingSpawns w"
  "opt_maxConcurrent (snd (spawn w it)) = opt_maxConcurrent w"
  "opt_mode (snd (spawn w it)) = opt_mode w"
  "queue_file (snd (spawn w it)) = queue_file w"
  "clock (snd (spawn w it)) = clock w"
  "c_agentId (fst (spawn w it)) = rand w (drawn w)"
  by (simp_all add: spawn_def createWorkspace_def Let_def)

lemma spawn_session:
  "map_of (sessions (snd (spawn w it))) (rand w (drawn w)) =
     Some \<lparr>s_id = rand w (drawn w), s_workItemId = item_id it, s_status = ''starting'',
           s_workspaceDir = path_join (path_join AGENTS_DIR (rand w (drawn w))) ''workspace'',
           s_artifactsDir = path_join (path_join AGENTS_DIR (rand w (drawn w))) ''artifacts'',
           s_startedAt = clock w, s_lastActivityAt = clock w\<rparr>"
  by (simp add: spawn_def createWorkspace_def Let_def)

lemma collectArtifacts_frame:
  "running (snd (collectArtifacts w a)) = running w"
  "pendingSpawns (snd (collectArtifacts w a)) = pendingSpawns w"
  "opt_maxConcurrent (snd (collectArtifacts w a)) = opt_maxConcurrent w"
  "opt_mode (snd (collectArtifacts w a)) = opt_mode w"
  "queue_file (snd (collectArtifacts w a)) = queue_file w"
  by (simp_all add: collectArtifacts_def split_def Let_def split: option.splits)

lemma executeMock_frame:
  "length (running (snd (executeMock w it ctx))) \<le> length (running w)"
  "pendingSpawns (snd (executeMock w it ctx)) = pendingSpawns w"
  "opt_maxConcurrent (snd (executeMock w it ctx)) = opt_maxConcurrent w"
proof -
  let ?w1 = "w\<lparr>files := writeFile (writeFile (files w) (c_artifactsDir ctx) ''COMPLETION.md''
                  (render w ''COMPLETION.md'' it)) (c_artifactsDir ctx) ''mock-output.txt''
                  (render w ''mock-output.txt'' it)\<rparr>"
  obtain r w2 where c: "collectArtifacts ?w1 (c_agentId ctx) = (r, w2)"
    by (cases "collectArtifacts ?w1 (c_agentId ctx)")
  from collectArtifacts_frame [of ?w1 "c_agentId ctx"] c
  have f: "running w2 = running w" "pendingSpawns w2 = pendingSpawns w"
    "opt_maxConcurrent w2 = opt_maxConcurrent w"
    by simp_all
  show "length (running (snd (executeMock w it ctx))) \<le> length (running w)"
    using c f length_map_delete [of "c_agentId ctx" "running w"]
    by (simp add: executeMock_def Let_def split: sum.splits prod.splits)
  show "pendingSpawns (snd (executeMock w it ctx)) = pendingSpawns w"
    using c f by (simp add: executeMock_def Let_def split: sum.splits prod.splits)
  show "opt_maxConcurrent (snd (executeMock w it ctx)) = opt_maxConcurrent w"
    using c f by (simp add: executeMock_def Let_def split: sum.splits prod.splits)
qed

lemma executor_spawn_frame:
  "length (running (snd (executor_spawn w it))) \<le> Suc (length (running w))"
  "pendingSpawns (snd (executor_spawn w it)) = pendingSpawns w"
  "opt_maxConcurrent (snd (executor_spawn w it)) = opt_maxConcurrent w"
proof -
  obtain ctx w1 where s: "spawn w it = (ctx, w1)" by (cases "spawn w it")
  from spawn_frame [of w it] s
  have f: "running w1 = running w" "pendingSpawns w1 = pendingSpawns w"
    "opt_maxConcurrent w1 = opt_maxConcurrent w"
    by simp_all
  let ?u = "update_g (queue_file w1) (item_id it)
             (no_updates\<lparr>u_status := Some ''in_flight'',
                         u_assignedAgentId := Some (Some (c_agentId ctx))\<rparr>) (clock w1)"
  show "length (running (snd (executor_spawn w it))) \<le> Suc (length (running w))"
  proof (cases ?u)
    case (Inl e)
    with s f show ?thesis by (simp add: executor_spawn_def)
  next
    case (Inr p)
    obtain r q where p: "p = (r, q)" by (cases p)
    let ?w2 = "w1\<lparr>queue_file := q,
                  running := map_set (c_agentId ctx)
                    \<lparr>r_workItemId = item_id it, r_startedAt = clock w1,
                     r_status = ''running''\<rparr> (running w1)\<rparr>"
    have l: "length (running ?w2) \<le> Suc (length (running w))"
      using f length_map_set [of "c_agentId ctx" _ "running w"] by simp
    from executeMock_frame(1) [of ?w2 it ctx] l
    have "length (running (snd (executeMock ?w2 it ctx))) \<le> Suc (length (running w))"
      by (rule order_trans)
    with s Inr p l show ?thesis
      by (simp add: executor_spawn_def Let_def executeSpawn_def executeExternal_def
          split: mode.splits)
  qed
  show "pendingSpawns (snd (executor_spawn w it)) = pendingSpawns w"
    using s f
    by (cases ?u)
      (auto simp: executor_spawn_def Let_def executeSpawn_def executeExternal_def
        executeMock_frame split: mode.splits)
  show "opt_maxConcurrent (snd (executor_spawn w it)) = opt_maxConcurrent w"
    using s f
    by (cases ?u)
      (auto simp: executor_spawn_def Let_def executeSpawn_def executeExternal_def
        executeMock_frame split: mode.splits)
qed








lemma executor_spawn_unfold:
  "executor_spawn w it =
     (case update_g (queue_file w) (item_id it)
             (no_updates\<lparr>u_status := Some ''in_flight'',
                         u_assignedAgentId := Some (Some (rand w (drawn w)))\<rparr>) (clock w) of
        Inl e \<Rightarrow> (Inl e, snd (spawn w it))
      | Inr (r, q) \<Rightarrow>
          (let w2 = (snd (spawn w it))\<lparr>queue_file := q,
                       running := map_set (rand w (drawn w))
                         \<lparr>r_workItemId = item_id it, r_startedAt = clock w,
                          r_status = ''running''\<rparr> (running w)\<rparr>
           in case opt_mode w of
                Mock \<Rightarrow> executeMock w2 it (fst (spawn w it))
              | Spawn \<Rightarrow> executeSpawn w2 it (fst (spawn w it))
              | External \<Rightarrow> executeExternal w2 it (fst (spawn w it))))"
  by (simp add: executor_spawn_def split_def Let_def spawn_frame split: sum.splits)

subsection \<open>Dispatch of one item\<close>

text \<open>
  C8, as the code has it. \<open>_spawn\<close> creates the session first and marks the item
  \<open>in_flight\<close> next. When the item is not in the queue, the update fails and
  \<open>_spawn\<close> fails with that error before it enters the execution in the executor's
  table of running executions: that table and the queue are as before, but the session
  stays in the session table of the agent manager with status \<open>starting\<close> (and its
  workspace stays on disk); nothing undoes the spawn. When the item is in the queue and the
  mode is \<open>spawn\<close> or \<open>external\<close>, \<open>_spawn\<close> succeeds, the execution is in the
  table of running executions under the new agent id, and the item is \<open>in_flight\<close>
  and assigned to that agent.
\<close>

theorem spawn_then_mark:
  "(item_id workItem \<notin> item_id ` set (g_items (queue_file w)) \<longrightarrow>
      fst (executor_spawn w workItem) = Inl (ItemNotFoundGlobal (item_id workItem))
      \<and> running (snd (executor_spawn w workItem)) = running w
      \<and> queue_file (snd (executor_spawn w workItem)) = queue_file w
      \<and> map_option s_status
           (map_of (sessions (snd (executor_spawn w workItem))) (rand w (drawn w)))
         = Some ''starting'')
   \<and> (item_id workItem \<in> item_id ` set (g_items (queue_file w)) \<and> opt_mode w \<noteq> Mock \<longrightarrow>
      map_sum id x_agentId (fst (executor_spawn w workItem)) = Inr (rand w (drawn w))
      \<and> map_of (running (snd (executor_spawn w workItem))) (rand w (drawn w))
         = Some \<lparr>r_workItemId = item_id workItem, r_startedAt = clock w,
                 r_status = ''running''\<rparr>
      \<and> map_option status
           (get_g (queue_file (snd (executor_spawn w workItem))) (item_id workItem))
         = Some ''in_flight''
      \<and> map_option assignedAgentId
           (get_g (queue_file (snd (executor_spawn w workItem))) (item_id workItem))
         = Some (Some (rand w (drawn w))))"
proof (intro conjI impI)
  assume "item_id workItem \<notin> item_id ` set (g_items (queue_file w))"
  then have n: "findIndex (\<lambda>it. item_id it = item_id workItem) (g_items (queue_file w)) = None"
    by (auto simp: findIndex_None_iff image_iff)
  then have e: "executor_spawn w workItem =
      (Inl (ItemNotFoundGlobal (item_id workItem)), snd (spawn w workItem))"
    by (simp add: executor_spawn_unfold update_g_result)
  show "fst (executor_spawn w workItem) = Inl (ItemNotFoundGlobal (item_id workItem))"
    by (simp add: e)
  show "running (snd (executor_spawn w workItem)) = running w"
    by (simp add: e spawn_frame)
  show "queue_file (snd (executor_spawn w workItem)) = queue_file w"
    by (simp add: e spawn_frame)
  show "map_option s_status
           (map_of (sessions (snd (executor_spawn w workItem))) (rand w (drawn w)))
         = Some ''starting''"
    by (simp add: e spawn_session)
next
  assume a: "item_id workItem \<in> item_id ` set (g_items (queue_file w)) \<and> opt_mode w \<noteq> Mock"
  let ?i = "item_id workItem" and ?a = "rand w (drawn w)"
  let ?u = "no_updates\<lparr>u_status := Some ''in_flight'', u_assignedAgentId := Some (Some ?a)\<rparr>"
  from a obtain k where k: "findIndex (\<lambda>it. item_id it = ?i) (g_items (queue_file w)) = Some k"
    using findIndex_id_iff [of item_id ?i "g_items (queue_file w)"] by blast
  let ?it' = "merge (g_items (queue_file w) ! k) ?u (clock w)"
  let ?q = "(queue_file w)\<lparr>g_items := (g_items (queue_file w))[k := ?it']\<rparr>"
  let ?w2 = "(snd (spawn w workItem))\<lparr>queue_file := ?q,
                running := map_set ?a
                  \<lparr>r_workItemId = ?i, r_startedAt = clock w, r_status = ''running''\<rparr>
                  (running w)\<rparr>"
  have e: "executor_spawn w workItem =
      (case opt_mode w of
         Mock \<Rightarrow> executeMock ?w2 workItem (fst (spawn w workItem))
       | Spawn \<Rightarrow> executeSpawn ?w2 workItem (fst (spawn w workItem))
       | External \<Rightarrow> executeExternal ?w2 workItem (fst (spawn w workItem)))"
    using k by (simp add: executor_spawn_unfold update_g_result Let_def)
  from k have "item_id ?it' = ?i" by (simp add: findIndex_Some_iff)
  from find_update_at_index [OF k, of ?it', OF this]
  have g: "get_g ?q ?i = Some ?it'" by (simp add: get_g_def)
  have st: "status ?it' = ''in_flight''" "assignedAgentId ?it' = Some ?a"
    by (simp_all add: merge_def no_updates_def)
  from a have m: "opt_mode w = Spawn \<or> opt_mode w = External"
    by (cases "opt_mode w") auto
  show "map_sum id x_agentId (fst (executor_spawn w workItem)) = Inr ?a"
    using m by (auto simp: e executeSpawn_def executeExternal_def spawn_frame)
  show "map_of (running (snd (executor_spawn w workItem))) ?a
         = Some \<lparr>r_workItemId = ?i, r_startedAt = clock w, r_status = ''running''\<rparr>"
    using m by (auto simp: e executeSpawn_def executeExternal_def)
  show "map_option status (get_g (queue_file (snd (executor_spawn w workItem))) ?i)
         = Some ''in_flight''"
    using m g st by (auto simp: e executeSpawn_def executeExternal_def)
  show "map_option assignedAgentId (get_g (queue_file (snd (executor_spawn w workItem))) ?i)
         = Some (Some ?a)"
    using m g st by (auto simp: e executeSpawn_def executeExternal_def)
qed

text \<open>
  A store update that fails leaves the new session behind: with an empty queue the
  dispatch fails, the session table holds the session, and no item is \<open>in_flight\<close>.
\<close>

theorem spawn_then_mark_counterexample:
  "fst (executor_spawn world0 task1) = Inl (ItemNotFoundGlobal ''id1'')
   \<and> map fst (sessions (snd (executor_spawn world0 task1))) = [''agent'']
   \<and> map_option s_status (map_of (sessions (snd (executor_spawn world0 task1))) ''agent'')
       = Some ''starting''
   \<and> g_items (queue_file (snd (executor_spawn world0 task1))) = []"
  by (simp add: executor_spawn_unfold update_g_result spawn_def createWorkspace_def Let_def
      world0_def task1_def make_item_def empty_queue_def)


theorem spawn_then_mark_witness:
  "item_id task1 \<notin> item_id ` set (g_items (queue_file world0))
   \<and> item_id task1 \<in> item_id ` set (g_items (queue_file world_d))
   \<and> opt_mode world_d \<noteq> Mock
   \<and> fst (executor_spawn world0 task1) = Inl (ItemNotFoundGlobal ''id1'')
   \<and> running (snd (executor_spawn world0 task1)) = []
   \<and> map fst (running (snd (executor_spawn world_d task1))) = [''agent'']
   \<and> map_option status (get_g (queue_file (snd (executor_spawn world_d task1))) ''id1'')
       = Some ''in_flight''"
proof -
  have a: "item_id task1 \<notin> item_id ` set (g_items (queue_file world0))"
    by (simp add: world0_def empty_queue_def)
  have b: "item_id task1 \<in> item_id ` set (g_items (queue_file world_d))
      \<and> opt_mode world_d \<noteq> Mock"
    by (simp add: world_d_def world0_def)
  have i: "item_id task1 = ''id1''" by (simp add: task1_def make_item_def)
  have r: "rand world_d (drawn world_d) = ''agent''" "running world0 = []"
    by (simp_all add: world_d_def world0_def)
  note f = spawn_then_mark [of task1 world0, THEN conjunct1, THEN mp, OF a]
  note g = spawn_then_mark [of task1 world_d, THEN conjunct2, THEN mp, OF b]
  have "map_of (running (snd (executor_spawn world_d task1))) ''agent'' \<noteq> None"
    using g r by simp
  moreover have "length (running (snd (executor_spawn world_d task1))) \<le> 1"
    using executor_spawn_frame(1) [of world_d task1] by (simp add: world_d_def world0_def)
  ultimately have "map fst (running (snd (executor_spawn world_d task1))) = [''agent'']"
    by (cases "running (snd (executor_spawn world_d task1))")
       (auto split: if_splits)
  with a b f g i r show ?thesis by simp
qed


















subsection \<open>Capacity of the executor\<close>



text \<open>
  Nor is it bounded over calls of \<open>executeProject\<close> and \<open>checkExecution\<close> alone.
  With room for two and four tasks, two are running and two are pending. The first agent
  completes and \<open>checkExecution\<close> is called for it twice, the second time before the
  execution that the first call started has run: each call finds one execution running
  and starts a pending one. When both have run, three executions are running.
\<close>

lemma overlapping_checks_exceed:
  "map fst (running overlap_completed) = [''agent'', ''agentx'']"
  "pendingSpawns overlap_completed = [''id3'', ''id4'']"
  "map fst (running overlap_checked) = [''agentx'']"
  "started overlap_checked = [''id3'', ''id4'']"
  "opt_maxConcurrent overlap_resumed = 2"
  "length (running overlap_resumed) = 3"
  by code_simp+




section \<open>Properties of concurrent claims\<close>

lemma lock_inv_initial: "initial \<sigma> \<Longrightarrow> lock_inv \<sigma>"
proof -
  assume i: "initial \<sigma>"
  then have m: "\<forall>k<length (st_tasks \<sigma>). mine_of (st_tasks \<sigma> ! k) = None"
    unfolding initial_def by (metis mine_of.simps(5) nth_mem)
  from i have "res_ok (st_lock \<sigma>) (st_resolved \<sigma>)"
    by (simp add: initial_def res_ok_def)
  moreover from m have "\<forall>k<length (st_tasks \<sigma>).
      task_ok (st_lock \<sigma>) (st_resolved \<sigma>) (st_tasks \<sigma> ! k)"
    by (simp add: task_ok_def)
  moreover from m have "uniq (st_tasks \<sigma>)" by (simp add: uniq_def)
  ultimately show ?thesis by (simp add: lock_inv_def)
qed

lemma uniq_same:
  assumes "uniq ts" and "k < length ts" and "mine_of t' = mine_of (ts ! k)"
  shows "uniq (ts[k := t'])"
  unfolding uniq_def
proof (intro allI impI)
  fix i j
  assume "i < length (ts[k := t'])" "j < length (ts[k := t'])" "i \<noteq> j"
  with assms(1) have "mine_of (ts ! i) = None \<or> mine_of (ts ! i) \<noteq> mine_of (ts ! j)"
    by (simp add: uniq_def)
  moreover have "mine_of (ts[k := t'] ! i) = mine_of (ts ! i)"
    "mine_of (ts[k := t'] ! j) = mine_of (ts ! j)"
    using assms(2,3) by (simp_all add: nth_list_update)
  ultimately show "mine_of (ts[k := t'] ! i) = None
      \<or> mine_of (ts[k := t'] ! i) \<noteq> mine_of (ts[k := t'] ! j)"
    by simp
qed

lemma uniq_fresh:
  assumes "uniq ts" and "k < length ts"
    and "\<forall>j<length ts. j \<noteq> k \<longrightarrow> mine_of (ts ! j) \<noteq> mine_of t'"
  shows "uniq (ts[k := t'])"
  unfolding uniq_def
proof (intro allI impI)
  fix i j
  assume ij: "i < length (ts[k := t'])" "j < length (ts[k := t'])" "i \<noteq> j"
  show "mine_of (ts[k := t'] ! i) = None
      \<or> mine_of (ts[k := t'] ! i) \<noteq> mine_of (ts[k := t'] ! j)"
  proof (cases "i = k")
    case True
    with ij assms(3) have "mine_of (ts ! j) \<noteq> mine_of t'" by simp
    with True ij assms(2) show ?thesis by (simp add: nth_list_update)
  next
    case ik: False
    show ?thesis
    proof (cases "j = k")
      case True
      with ij assms(3) have "mine_of (ts ! i) \<noteq> mine_of t'" by simp
      with True ik ij assms(2) show ?thesis by (simp add: nth_list_update)
    next
      case False
      with ik ij assms(1) show ?thesis by (simp add: uniq_def nth_list_update)
    qed
  qed
qed

lemma uniq_none:
  assumes "uniq ts" and "mine_of t' = None"
  shows "uniq (ts[k := t'])"
  unfolding uniq_def
proof (intro allI impI)
  fix i j
  assume ij: "i < length (ts[k := t'])" "j < length (ts[k := t'])" "i \<noteq> j"
  show "mine_of (ts[k := t'] ! i) = None
      \<or> mine_of (ts[k := t'] ! i) \<noteq> mine_of (ts[k := t'] ! j)"
  proof (cases "i = k")
    case True
    with ij assms(2) show ?thesis by simp
  next
    case ik: False
    show ?thesis
    proof (cases "j = k")
      case True
      with ik ij assms(2) show ?thesis by (cases "mine_of (ts ! i)") (simp_all add: nth_list_update)
    next
      case False
      with ik ij assms(1) show ?thesis by (simp add: uniq_def nth_list_update)
    qed
  qed
qed

lemma uniq_others:
  assumes "uniq ts" and "i < length ts" and "j < length ts" and "i \<noteq> j"
    and "mine_of (ts ! i) = Some m"
  shows "mine_of (ts ! j) \<noteq> Some m"
  using assms unfolding uniq_def by (metis option.distinct(1))

lemma task_ok_lock_mono: "task_ok n R t \<Longrightarrow> task_ok (Suc n) R t"
  by (simp add: task_ok_def) (metis le_Suc_eq)

lemma task_ok_insert: "task_ok n R t \<Longrightarrow> mine_of t \<noteq> Some m \<Longrightarrow> task_ok n (insert m R) t"
  by (simp add: task_ok_def) metis

lemma res_ok_insert:
  assumes "res_ok n R" and "m \<le> n" and "m - 1 \<in> R"
  shows "res_ok n (insert m R)"
proof -
  from assms(1) have closed: "\<forall>p\<in>R. \<forall>p'<p. p' \<in> R" and z: "0 \<in> R"
    and le: "\<forall>p\<in>R. p \<le> n"
    by (auto simp: res_ok_def)
  have "\<forall>p'<m. p' \<in> R"
  proof (intro allI impI)
    fix p' assume "p' < m"
    then have "p' = m - 1 \<or> p' < m - 1" by arith
    with closed assms(3) show "p' \<in> R" by blast
  qed
  with closed z le assms(2) show ?thesis by (auto simp: res_ok_def)
qed

lemma mutual_exclusion:
  assumes inv: "lock_inv \<sigma>" and i: "i < length (st_tasks \<sigma>)" and j: "j < length (st_tasks \<sigma>)"
    and ne: "i \<noteq> j" and ci: "in_cs (st_tasks \<sigma> ! i)"
  shows "\<not> in_cs (st_tasks \<sigma> ! j)"
proof
  assume cj: "in_cs (st_tasks \<sigma> ! j)"
  from ci obtain mi where mi: "mine_of (st_tasks \<sigma> ! i) = Some mi"
    by (cases "st_tasks \<sigma> ! i") auto
  from cj obtain mj where mj: "mine_of (st_tasks \<sigma> ! j) = Some mj"
    by (cases "st_tasks \<sigma> ! j") auto
  from inv have u: "uniq (st_tasks \<sigma>)" by (simp add: lock_inv_def)
  from uniq_others [OF u i j ne mi] mj have nm: "mi \<noteq> mj" by simp
  from inv i have "task_ok (st_lock \<sigma>) (st_resolved \<sigma>) (st_tasks \<sigma> ! i)"
    by (simp add: lock_inv_def)
  with mi ci have pi: "0 < mi" "mi \<notin> st_resolved \<sigma>" "mi - 1 \<in> st_resolved \<sigma>"
    by (simp_all add: task_ok_def)
  from inv j have "task_ok (st_lock \<sigma>) (st_resolved \<sigma>) (st_tasks \<sigma> ! j)"
    by (simp add: lock_inv_def)
  with mj cj have pj: "0 < mj" "mj \<notin> st_resolved \<sigma>" "mj - 1 \<in> st_resolved \<sigma>"
    by (simp_all add: task_ok_def)
  from inv have closed: "\<forall>p\<in>st_resolved \<sigma>. \<forall>p'<p. p' \<in> st_resolved \<sigma>"
    by (simp add: lock_inv_def res_ok_def)
  show False
  proof (cases "mi < mj")
    case True
    with pj(1) have "mi = mj - 1 \<or> mi < mj - 1" by arith
    with closed pj(3) have "mi \<in> st_resolved \<sigma>" by blast
    with pi(2) show False by simp
  next
    case False
    with nm have "mj < mi" by simp
    with pi(1) have "mj = mi - 1 \<or> mj < mi - 1" by arith
    with closed pi(3) have "mj \<in> st_resolved \<sigma>" by blast
    with pj(2) show False by simp
  qed
qed

lemma lock_inv_step:
  assumes st: "step projectId \<sigma> \<sigma>'" and inv: "lock_inv \<sigma>"
  shows "lock_inv \<sigma>'"
proof -
  from inv have r: "res_ok (st_lock \<sigma>) (st_resolved \<sigma>)"
    and t: "\<And>k. k < length (st_tasks \<sigma>) \<Longrightarrow>
              task_ok (st_lock \<sigma>) (st_resolved \<sigma>) (st_tasks \<sigma> ! k)"
    and u: "uniq (st_tasks \<sigma>)"
    by (simp_all add: lock_inv_def)
  from st show ?thesis
  proof (cases rule: step.cases)
    case (enter i a)
    let ?n = "st_lock \<sigma>" and ?R = "st_resolved \<sigma>"
    let ?t' = "Waiting a ?n (Suc ?n)"
    from r have r': "res_ok (Suc ?n) ?R"
      by (auto simp: res_ok_def)
    from r have fresh: "Suc ?n \<notin> ?R" by (auto simp: res_ok_def)
    have new: "task_ok (Suc ?n) ?R ?t'"
      using fresh by (simp add: task_ok_def)
    have t': "\<forall>k<length (st_tasks \<sigma>). task_ok (Suc ?n) ?R ((st_tasks \<sigma>)[i := ?t'] ! k)"
      using t new enter(2) by (simp add: nth_list_update task_ok_lock_mono)
    have "\<forall>j<length (st_tasks \<sigma>). j \<noteq> i \<longrightarrow> mine_of (st_tasks \<sigma> ! j) \<noteq> mine_of ?t'"
    proof (intro allI impI)
      fix j assume "j < length (st_tasks \<sigma>)" "j \<noteq> i"
      from t [OF this(1)] show "mine_of (st_tasks \<sigma> ! j) \<noteq> mine_of ?t'"
        by (auto simp: task_ok_def)
    qed
    from uniq_fresh [OF u enter(2) this] have u': "uniq ((st_tasks \<sigma>)[i := ?t'])" .
    from r' t' u' show ?thesis by (simp add: enter(1) lock_inv_def)
  next
    case (acquire i a prev mine)
    let ?n = "st_lock \<sigma>" and ?R = "st_resolved \<sigma>"
    let ?t' = "Reading a mine"
    from t [OF acquire(2)] acquire(3,4) have new: "task_ok ?n ?R ?t'"
      by (simp add: task_ok_def)
    have t': "\<forall>k<length (st_tasks \<sigma>). task_ok ?n ?R ((st_tasks \<sigma>)[i := ?t'] ! k)"
      using t new acquire(2) by (simp add: nth_list_update)
    have u': "uniq ((st_tasks \<sigma>)[i := ?t'])"
      using acquire(3) by (intro uniq_same [OF u acquire(2)]) simp
    from r t' u' show ?thesis by (simp add: acquire(1) lock_inv_def)
  next
    case (read_none i a mine)
    let ?n = "st_lock \<sigma>" and ?R = "st_resolved \<sigma>"
    let ?t' = "Done None"
    from t [OF read_none(2)] read_none(3)
    have m: "mine \<le> ?n" "mine - 1 \<in> ?R" by (simp_all add: task_ok_def)
    from res_ok_insert [OF r m] have r': "res_ok ?n (insert mine ?R)" .
    have t': "\<forall>k<length (st_tasks \<sigma>).
        task_ok ?n (insert mine ?R) ((st_tasks \<sigma>)[i := ?t'] ! k)"
    proof (intro allI impI)
      fix k assume k: "k < length (st_tasks \<sigma>)"
      show "task_ok ?n (insert mine ?R) ((st_tasks \<sigma>)[i := ?t'] ! k)"
      proof (cases "k = i")
        case True
        with k show ?thesis by (simp add: task_ok_def)
      next
        case False
        from read_none(3) have "mine_of (st_tasks \<sigma> ! i) = Some mine" by simp
        from uniq_others [OF u read_none(2) k _ this] False
        have "mine_of (st_tasks \<sigma> ! k) \<noteq> Some mine" by simp
        from task_ok_insert [OF t [OF k] this] False show ?thesis by simp
      qed
    qed
    have u': "uniq ((st_tasks \<sigma>)[i := ?t'])"
      by (rule uniq_none [OF u]) simp
    from r' t' u' show ?thesis by (simp add: read_none(1) lock_inv_def)
  next
    case (read_some i a mine nextItem index it' now q')
    let ?n = "st_lock \<sigma>" and ?R = "st_resolved \<sigma>"
    let ?t' = "Writing a mine q' it'"
    from t [OF read_some(2)] read_some(3) have new: "task_ok ?n ?R ?t'"
      by (simp add: task_ok_def)
    have t': "\<forall>k<length (st_tasks \<sigma>). task_ok ?n ?R ((st_tasks \<sigma>)[i := ?t'] ! k)"
      using t new read_some(2) by (simp add: nth_list_update)
    have u': "uniq ((st_tasks \<sigma>)[i := ?t'])"
      using read_some(3) by (intro uniq_same [OF u read_some(2)]) simp
    from r t' u' show ?thesis by (simp add: read_some(1) lock_inv_def)
  next
    case (write_back i a mine q' it')
    let ?n = "st_lock \<sigma>" and ?R = "st_resolved \<sigma>"
    let ?t' = "Written mine it'"
    from t [OF write_back(2)] write_back(3) have new: "task_ok ?n ?R ?t'"
      by (simp add: task_ok_def)
    have t': "\<forall>k<length (st_tasks \<sigma>). task_ok ?n ?R ((st_tasks \<sigma>)[i := ?t'] ! k)"
      using t new write_back(2) by (simp add: nth_list_update)
    have u': "uniq ((st_tasks \<sigma>)[i := ?t'])"
      using write_back(3) by (intro uniq_same [OF u write_back(2)]) simp
    from r t' u' show ?thesis by (simp add: write_back(1) lock_inv_def)
  next
    case (release i mine it')
    let ?n = "st_lock \<sigma>" and ?R = "st_resolved \<sigma>"
    let ?t' = "Done (Some it')"
    from t [OF release(2)] release(3)
    have m: "mine \<le> ?n" "mine - 1 \<in> ?R" by (simp_all add: task_ok_def)
    from res_ok_insert [OF r m] have r': "res_ok ?n (insert mine ?R)" .
    have t': "\<forall>k<length (st_tasks \<sigma>).
        task_ok ?n (insert mine ?R) ((st_tasks \<sigma>)[i := ?t'] ! k)"
    proof (intro allI impI)
      fix k assume k: "k < length (st_tasks \<sigma>)"
      show "task_ok ?n (insert mine ?R) ((st_tasks \<sigma>)[i := ?t'] ! k)"
      proof (cases "k = i")
        case True
        with k show ?thesis by (simp add: task_ok_def)
      next
        case False
        from release(3) have "mine_of (st_tasks \<sigma> ! i) = Some mine" by simp
        from uniq_others [OF u release(2) k _ this] False
        have "mine_of (st_tasks \<sigma> ! k) \<noteq> Some mine" by simp
        from task_ok_insert [OF t [OF k] this] False show ?thesis by simp
      qed
    qed
    have u': "uniq ((st_tasks \<sigma>)[i := ?t'])"
      by (rule uniq_none [OF u]) simp
    from r' t' u' show ?thesis by (simp add: release(1) lock_inv_def)
  qed
qed

lemma results_distinct_same:
  assumes "results_distinct ts" and "k < length ts" and "claimed_of t' = claimed_of (ts ! k)"
  shows "results_distinct (ts[k := t'])"
  unfolding results_distinct_def
proof (intro allI impI)
  fix i j x y
  assume ij: "i < length (ts[k := t'])" "j < length (ts[k := t'])"
    and c: "i \<noteq> j \<and> claimed_of (ts[k := t'] ! i) = Some x \<and> claimed_of (ts[k := t'] ! j) = Some y"
  have "claimed_of (ts[k := t'] ! i) = claimed_of (ts ! i)"
    "claimed_of (ts[k := t'] ! j) = claimed_of (ts ! j)"
    using assms(2,3) by (simp_all add: nth_list_update)
  with c ij assms(1) show "item_id x \<noteq> item_id y"
    unfolding results_distinct_def by (metis length_list_update)
qed

lemma data_inv_frame:
  assumes inv: "data_inv projectId \<sigma>" and i: "i < length (st_tasks \<sigma>)"
    and c: "claimed_of t' = claimed_of (st_tasks \<sigma> ! i)"
    and w: "writing_ok (loadQueue (st_store \<sigma>) projectId) t'"
    and s: "st_store \<sigma>' = st_store \<sigma>" and ts: "st_tasks \<sigma>' = (st_tasks \<sigma>)[i := t']"
  shows "data_inv projectId \<sigma>'"
proof -
  from inv have d: "distinct (map item_id (stored (st_store \<sigma>) projectId))"
    and t: "\<And>k. k < length (st_tasks \<sigma>) \<Longrightarrow>
              writing_ok (loadQueue (st_store \<sigma>) projectId) (st_tasks \<sigma> ! k)
              \<and> claimed_ok (stored (st_store \<sigma>) projectId) (st_tasks \<sigma> ! k)"
    and r: "results_distinct (st_tasks \<sigma>)"
    by (simp_all add: data_inv_def)
  from t [OF i] c have cn: "claimed_ok (stored (st_store \<sigma>) projectId) t'"
    by (simp add: claimed_ok_def)
  have "\<forall>k<length (st_tasks \<sigma>).
      writing_ok (loadQueue (st_store \<sigma>) projectId) ((st_tasks \<sigma>)[i := t'] ! k)
      \<and> claimed_ok (stored (st_store \<sigma>) projectId) ((st_tasks \<sigma>)[i := t'] ! k)"
    using t w cn i by (simp add: nth_list_update)
  moreover from results_distinct_same [OF r i c]
  have "results_distinct ((st_tasks \<sigma>)[i := t'])" .
  ultimately show ?thesis using d by (simp add: data_inv_def s ts)
qed

lemma data_inv_initial:
  assumes "initial \<sigma>" and "distinct (map item_id (stored (st_store \<sigma>) projectId))"
  shows "data_inv projectId \<sigma>"
proof -
  from assms(1) have m: "\<forall>k<length (st_tasks \<sigma>). \<exists>a. st_tasks \<sigma> ! k = Init a"
    unfolding initial_def by (metis nth_mem)
  then have "\<forall>k<length (st_tasks \<sigma>).
      writing_ok (loadQueue (st_store \<sigma>) projectId) (st_tasks \<sigma> ! k)
      \<and> claimed_ok (stored (st_store \<sigma>) projectId) (st_tasks \<sigma> ! k)"
    by (auto simp: writing_ok_def claimed_ok_def)
  moreover from m have "results_distinct (st_tasks \<sigma>)"
    unfolding results_distinct_def by (metis claimed_of.simps(3) option.distinct(1))
  ultimately show ?thesis using assms(2) by (simp add: data_inv_def)
qed

lemma data_inv_write_back:
  assumes linv: "lock_inv \<sigma>" and inv: "data_inv projectId \<sigma>"
    and i: "i < length (st_tasks \<sigma>)" and ti: "st_tasks \<sigma> ! i = Writing a mine q' it'"
  shows "data_inv projectId
           (\<sigma>\<lparr>st_store := saveQueue (st_store \<sigma>) projectId q',
              st_tasks := (st_tasks \<sigma>)[i := Written mine it']\<rparr>)"
proof -
  let ?xs = "stored (st_store \<sigma>) projectId"
  let ?ts = "st_tasks \<sigma>"
  let ?ts' = "?ts[i := Written mine it']"
  from inv have d: "distinct (map item_id ?xs)"
    and t: "\<And>k. k < length ?ts \<Longrightarrow>
              writing_ok (loadQueue (st_store \<sigma>) projectId) (?ts ! k)
              \<and> claimed_ok ?xs (?ts ! k)"
    and r: "results_distinct ?ts"
    by (simp_all add: data_inv_def)
  from t [OF i] ti obtain k where k: "k < length ?xs" "status (?xs ! k) = ''ready''"
    "item_id it' = item_id (?xs ! k)" "status it' = ''in_flight''"
    "q' = (loadQueue (st_store \<sigma>) projectId)\<lparr>items := ?xs[k := it']\<rparr>"
    unfolding writing_ok_def by blast
  let ?xs' = "?xs[k := it']"
  have st: "stored (saveQueue (st_store \<sigma>) projectId q') projectId = ?xs'"
    by (simp add: k(5))
  have ld: "loadQueue (saveQueue (st_store \<sigma>) projectId q') projectId = q'"
    by simp
  have "map item_id ?xs' = (map item_id ?xs)[k := item_id (?xs ! k)]"
    by (simp add: map_update k(3))
  also have "\<dots> = map item_id ?xs"
    using k(1) by (simp add: list_update_same_conv)
  finally have d': "distinct (map item_id ?xs')" using d by simp
  have others: "\<exists>kj<length ?xs. kj \<noteq> k \<and> item_id (?xs ! kj) = item_id y
      \<and> status (?xs ! kj) = ''in_flight''"
    if "j < length ?ts" and "claimed_of (?ts ! j) = Some y" for j y
  proof -
    from t [OF that(1)] that(2) obtain kj where kj: "kj < length ?xs"
      "item_id (?xs ! kj) = item_id y" "status (?xs ! kj) = ''in_flight''"
      unfolding claimed_ok_def by blast
    with k(2) have "kj \<noteq> k" by auto
    with kj show ?thesis by blast
  qed
  have c': "claimed_ok ?xs' (?ts' ! j)" if j: "j < length ?ts" for j
  proof (cases "j = i")
    case True
    from k(1,4) have "k < length ?xs' \<and> item_id (?xs' ! k) = item_id it'
        \<and> status (?xs' ! k) = ''in_flight''"
      by simp
    with True i show ?thesis unfolding claimed_ok_def by auto
  next
    case False
    show ?thesis unfolding claimed_ok_def
    proof (intro allI impI)
      fix y assume "claimed_of (?ts' ! j) = Some y"
      with False have "claimed_of (?ts ! j) = Some y" by simp
      from others [OF j this] obtain kj where "kj < length ?xs" "kj \<noteq> k"
        "item_id (?xs ! kj) = item_id y" "status (?xs ! kj) = ''in_flight''"
        by blast
      then have "kj < length ?xs' \<and> item_id (?xs' ! kj) = item_id y
          \<and> status (?xs' ! kj) = ''in_flight''"
        by simp
      then show "\<exists>k<length ?xs'. item_id (?xs' ! k) = item_id y
          \<and> status (?xs' ! k) = ''in_flight''"
        by blast
    qed
  qed
  have w': "writing_ok q' (?ts' ! j)" if j: "j < length ?ts" for j
  proof (cases "j = i")
    case True
    with i show ?thesis by (simp add: writing_ok_def)
  next
    case False
    from ti have "in_cs (?ts ! i)" by simp
    from mutual_exclusion [OF linv i j _ this] False have "\<not> in_cs (?ts ! j)" by simp
    then have "\<forall>a m q it. ?ts ! j \<noteq> Writing a m q it" by auto
    with False show ?thesis by (simp add: writing_ok_def)
  qed
  have differs: "item_id it' \<noteq> item_id y"
    if "j < length ?ts" and "claimed_of (?ts ! j) = Some y" for j y
  proof -
    from others [OF that] obtain kj where kj: "kj < length ?xs" "kj \<noteq> k"
      "item_id (?xs ! kj) = item_id y"
      by blast
    from d k(1) kj(1,2) have "map item_id ?xs ! k \<noteq> map item_id ?xs ! kj"
      using nth_eq_iff_index_eq [of "map item_id ?xs" k kj] by simp
    with k(1,3) kj(1,3) show ?thesis by simp
  qed
  have upd: "claimed_of (?ts' ! j) = (if j = i then Some it' else claimed_of (?ts ! j))"
    if "j < length ?ts" for j
    using that by (simp add: nth_list_update)
  have r': "results_distinct ?ts'"
    unfolding results_distinct_def
  proof (intro allI impI)
    fix a b x y
    assume ab: "a < length ?ts'" "b < length ?ts'"
      and c: "a \<noteq> b \<and> claimed_of (?ts' ! a) = Some x \<and> claimed_of (?ts' ! b) = Some y"
    from ab have ab': "a < length ?ts" "b < length ?ts" by simp_all
    from c have ne: "a \<noteq> b" and ca: "claimed_of (?ts' ! a) = Some x"
      and cb: "claimed_of (?ts' ! b) = Some y"
      by simp_all
    show "item_id x \<noteq> item_id y"
    proof (cases "a = i")
      case True
      with ne have "b \<noteq> i" by simp
      with cb upd [OF ab'(2)] have "claimed_of (?ts ! b) = Some y" by simp
      from differs [OF ab'(2) this] have "item_id it' \<noteq> item_id y" .
      moreover from True ca upd [OF ab'(1)] have "x = it'" by simp
      ultimately show ?thesis by simp
    next
      case na: False
      with ca upd [OF ab'(1)] have oa: "claimed_of (?ts ! a) = Some x" by simp
      show ?thesis
      proof (cases "b = i")
        case True
        from differs [OF ab'(1) oa] have "item_id it' \<noteq> item_id x" .
        moreover from True cb upd [OF ab'(2)] have "y = it'" by simp
        ultimately show ?thesis by simp
      next
        case False
        with cb upd [OF ab'(2)] have "claimed_of (?ts ! b) = Some y" by simp
        with r ab' ne oa show ?thesis unfolding results_distinct_def by blast
      qed
    qed
  qed
  have iq: "items q' = ?xs'" by (simp add: k(5))
  from d' c' w' r' show ?thesis
    by (simp add: data_inv_def iq)
qed

lemma data_inv_step:
  assumes st: "step projectId \<sigma> \<sigma>'" and linv: "lock_inv \<sigma>" and inv: "data_inv projectId \<sigma>"
  shows "data_inv projectId \<sigma>'"
  using st
proof (cases rule: step.cases)
  case (enter i a)
  show ?thesis
    by (rule data_inv_frame [OF inv enter(2), of "Waiting a (st_lock \<sigma>) (Suc (st_lock \<sigma>))"])
       (simp_all add: enter writing_ok_def)
next
  case (acquire i a prev mine)
  show ?thesis
    by (rule data_inv_frame [OF inv acquire(2), of "Reading a mine"])
       (simp_all add: acquire writing_ok_def)
next
  case (read_none i a mine)
  show ?thesis
    by (rule data_inv_frame [OF inv read_none(2), of "Done None"])
       (simp_all add: read_none writing_ok_def)
next
  case (read_some i a mine nextItem index it' now q')
  let ?xs = "stored (st_store \<sigma>) projectId"
  from inv have d: "distinct (map item_id ?xs)" by (simp add: data_inv_def)
  from scan_Some [OF read_some(4)] obtain k where k: "k < length ?xs" "nextItem = ?xs ! k"
    "status nextItem = ''ready''"
    by blast
  from findIndex_distinct [OF d k(1)] read_some(5) k(2) have "index = k" by simp
  with k read_some(6,7)
  have "k < length ?xs \<and> status (?xs ! k) = ''ready'' \<and> item_id it' = item_id (?xs ! k)
      \<and> status it' = ''in_flight''
      \<and> q' = (loadQueue (st_store \<sigma>) projectId)\<lparr>items := ?xs[k := it']\<rparr>"
    by simp
  then have w: "writing_ok (loadQueue (st_store \<sigma>) projectId) (Writing a mine q' it')"
    unfolding writing_ok_def by blast
  show ?thesis
    by (rule data_inv_frame [OF inv read_some(2), of "Writing a mine q' it'"])
       (simp_all add: read_some(1,3) w)
next
  case (write_back i a mine q' it')
  from data_inv_write_back [OF linv inv write_back(2,3)] write_back(1) show ?thesis by simp
next
  case (release i mine it')
  show ?thesis
    by (rule data_inv_frame [OF inv release(2), of "Done (Some it')"])
       (simp_all add: release writing_ok_def)
qed

lemma lock_inv_reachable:
  assumes "rtranclp (step projectId) \<sigma>0 \<sigma>" and "lock_inv \<sigma>0"
  shows "lock_inv \<sigma>"
  using assms by (induction rule: rtranclp_induct) (simp_all add: lock_inv_step)

lemma invariants_reachable:
  assumes "rtranclp (step projectId) \<sigma>0 \<sigma>"
    and "lock_inv \<sigma>0" and "data_inv projectId \<sigma>0"
  shows "lock_inv \<sigma> \<and> data_inv projectId \<sigma>"
  using assms
proof (induction rule: rtranclp_induct)
  case base
  then show ?case by simp
next
  case (step y z)
  then have "lock_inv y" "data_inv projectId y" by simp_all
  with step(2) show ?case by (simp add: lock_inv_step data_inv_step)
qed

text \<open>
  C2, as the code has it. Start with any number of calls of \<open>claim\<close> on one project,
  none of them entered yet, and let them run in any interleaving of their stretches. Then
  at every moment no two calls are between acquiring the lock and releasing it (reading,
  computing or writing the queue), whatever the queue holds; and when the queue they
  started on has pairwise different ids, no two calls that have returned an item have
  returned items with the same id.
\<close>

theorem concurrent_claims_distinct:
  assumes "initial \<sigma>0"
    and "rtranclp (step projectId) \<sigma>0 \<sigma>"
  shows "\<forall>i<length (st_tasks \<sigma>). \<forall>j<length (st_tasks \<sigma>). i \<noteq> j \<longrightarrow>
           \<not> (in_cs (st_tasks \<sigma> ! i) \<and> in_cs (st_tasks \<sigma> ! j))
           \<and> (distinct (map item_id (stored (st_store \<sigma>0) projectId)) \<longrightarrow>
                (\<forall>x y. st_tasks \<sigma> ! i = Done (Some x) \<and> st_tasks \<sigma> ! j = Done (Some y)
                   \<longrightarrow> item_id x \<noteq> item_id y))"
proof (intro allI impI conjI)
  fix i j
  assume i: "i < length (st_tasks \<sigma>)" and j: "j < length (st_tasks \<sigma>)" and ne: "i \<noteq> j"
  from lock_inv_reachable [OF assms(2) lock_inv_initial [OF assms(1)]]
  have linv: "lock_inv \<sigma>" .
  from mutual_exclusion [OF linv i j ne]
  show "\<not> (in_cs (st_tasks \<sigma> ! i) \<and> in_cs (st_tasks \<sigma> ! j))" by blast
next
  fix i j x y
  assume i: "i < length (st_tasks \<sigma>)" and j: "j < length (st_tasks \<sigma>)" and ne: "i \<noteq> j"
    and ids: "distinct (map item_id (stored (st_store \<sigma>0) projectId))"
    and xy: "st_tasks \<sigma> ! i = Done (Some x) \<and> st_tasks \<sigma> ! j = Done (Some y)"
  from invariants_reachable [OF assms(2) lock_inv_initial [OF assms(1)]
      data_inv_initial [OF assms(1) ids]]
  have dinv: "data_inv projectId \<sigma>" by simp
  then have "results_distinct (st_tasks \<sigma>)" by (simp add: data_inv_def)
  with i j ne xy show "item_id x \<noteq> item_id y"
    unfolding results_distinct_def by (metis claimed_of.simps(2))
qed

text \<open>Every run of the scheduler is an interleaving of the calls.\<close>

lemma advance_step:
  "advance projectId i now \<sigma> = \<sigma> \<or> step projectId \<sigma> (advance projectId i now \<sigma>)"
proof (cases "i < length (st_tasks \<sigma>)")
  case False
  then show ?thesis by (simp add: advance_def)
next
  case True
  show ?thesis
  proof (cases "st_tasks \<sigma> ! i")
    case (Init a)
    with True show ?thesis by (simp add: advance_def step.enter)
  next
    case (Waiting a prev mine)
    with True show ?thesis by (simp add: advance_def step.acquire)
  next
    case (Reading a mine)
    show ?thesis
    proof (cases "scan priorityOrder (stored (st_store \<sigma>) projectId)")
      case None
      with True Reading show ?thesis by (simp add: advance_def step.read_none)
    next
      case (Some nextItem)
      show ?thesis
      proof (cases "findIndex (\<lambda>it. item_id it = item_id nextItem)
                      (stored (st_store \<sigma>) projectId)")
        case None
        with True Reading Some show ?thesis by (simp add: advance_def)
      next
        case (Some index)
        from step.read_some [OF True Reading \<open>scan priorityOrder _ = Some nextItem\<close> Some
            refl refl, of now]
        show ?thesis
          using True Reading \<open>scan priorityOrder _ = Some nextItem\<close> Some
          by (simp add: advance_def)
      qed
    qed
  next
    case (Writing a mine q' it')
    with True show ?thesis by (simp add: advance_def step.write_back)
  next
    case (Written mine it')
    with True show ?thesis by (simp add: advance_def step.release)
  next
    case (Done r)
    with True show ?thesis by (simp add: advance_def)
  qed
qed

lemma run_reachable: "rtranclp (step projectId) \<sigma> (run projectId sched \<sigma>)"
proof (induction sched arbitrary: \<sigma>)
  case Nil
  then show ?case by simp
next
  case (Cons a sched)
  obtain i now where a: "a = (i, now)" by (cases a)
  from advance_step [of projectId i now \<sigma>]
  have "rtranclp (step projectId) \<sigma> (advance projectId i now \<sigma>)"
    by auto
  with Cons [of "advance projectId i now \<sigma>"] a show ?case by simp
qed

text \<open>
  A call that reads and writes without another call in between does what \<open>claim\<close>
  does.
\<close>

lemma claim_in_two_steps:
  "(scan priorityOrder (stored s projectId) = None
      \<longrightarrow> claim s projectId a now = (None, s))
   \<and> (\<forall>nextItem index.
         scan priorityOrder (stored s projectId) = Some nextItem
         \<and> findIndex (\<lambda>it. item_id it = item_id nextItem) (stored s projectId) = Some index
      \<longrightarrow> claim s projectId a now =
            (Some ((stored s projectId ! index)
                     \<lparr>status := ''in_flight'', assignedAgentId := Some a, updatedAt := now\<rparr>),
             saveQueue s projectId
               ((loadQueue s projectId)
                  \<lparr>items := (stored s projectId)
                     [index := (stored s projectId ! index)
                        \<lparr>status := ''in_flight'', assignedAgentId := Some a,
                         updatedAt := now\<rparr>]\<rparr>)))"
  by (simp add: claim_def Let_def)

text \<open>
  In the interleaving chosen here the second agent tries to go on while the first is
  writing, and has to wait; the first returns the urgent item, the second the medium one.
\<close>

lemma two_claims_blocked:
  "map in_cs (st_tasks (run ''p'' (take 6 interleaving) two_claims)) = [True, False]"
  by code_simp

lemma two_claims_done:
  "st_tasks (run ''p'' interleaving two_claims) =
     [Done (Some (make_item (titled ''Urgent'' ''urgent'') ''id2'' 2 2
                    \<lparr>status := ''in_flight'', assignedAgentId := Some ''agent-1'',
                     updatedAt := 7\<rparr>)),
      Done (Some (make_item (titled ''Medium'' ''medium'') ''id3'' 3 3
                    \<lparr>status := ''in_flight'', assignedAgentId := Some ''agent-2'',
                     updatedAt := 8\<rparr>))]"
  by code_simp

theorem concurrent_claims_distinct_witness:
  "initial two_claims
   \<and> distinct (map item_id (stored (st_store two_claims) ''p''))
   \<and> rtranclp (step ''p'') two_claims (run ''p'' interleaving two_claims)
   \<and> map (map_option title \<circ> claimed_of) (st_tasks (run ''p'' interleaving two_claims))
       = [Some ''Urgent'', Some ''Medium'']
   \<and> (\<exists>x y. st_tasks (run ''p'' interleaving two_claims) ! 0 = Done (Some x)
          \<and> st_tasks (run ''p'' interleaving two_claims) ! 1 = Done (Some y)
          \<and> item_id x \<noteq> item_id y)"
proof -
  let ?f = "run ''p'' interleaving two_claims"
  have i: "initial two_claims"
    by (simp add: initial_def two_claims_def)
  have d: "distinct (map item_id (stored (st_store two_claims) ''p''))"
    by (simp add: two_claims_def scenarioA_items make_item_def)
  have r: "rtranclp (step ''p'') two_claims ?f"
    by (rule run_reachable)
  obtain x y where xy: "st_tasks ?f ! 0 = Done (Some x)" "st_tasks ?f ! 1 = Done (Some y)"
    by (simp add: two_claims_done)
  have l: "0 < length (st_tasks ?f)" "1 < length (st_tasks ?f)"
    by (simp_all add: two_claims_done)
  have ne: "(0::nat) \<noteq> 1" by simp
  from concurrent_claims_distinct [OF i r, rule_format, OF l ne, THEN conjunct2, THEN mp, OF d,
      rule_format, of x y] xy
  have "item_id x \<noteq> item_id y" by simp
  with xy have e: "\<exists>x y. st_tasks ?f ! 0 = Done (Some x) \<and> st_tasks ?f ! 1 = Done (Some y)
      \<and> item_id x \<noteq> item_id y"
    by blast
  have t: "map (map_option title \<circ> claimed_of) (st_tasks ?f) = [Some ''Urgent'', Some ''Medium'']"
    by (simp add: two_claims_done make_item_def titled_def)
  from i d r t e show ?thesis by (intro conjI)
qed

text \<open>
  Without that condition two calls can return the same id. The queue holds two ready
  items with one id; the first call marks the first of them, the second call finds the
  second one ready, looks its id up, and marks and returns the first one again. Both calls
  have returned the id \<open>dup\<close>, and the item has passed from the first agent to the second.
\<close>

theorem concurrent_claims_distinct_counterexample:
  "initial dup_claims
   \<and> map status (stored (st_store dup_claims) ''p'') = [''ready'', ''ready'']
   \<and> map item_id (stored (st_store dup_claims) ''p'') = [''dup'', ''dup'']
   \<and> rtranclp (step ''p'') dup_claims (run ''p'' interleaving dup_claims)
   \<and> st_tasks (run ''p'' interleaving dup_claims) =
       [Done (Some (make_item (titled ''First'' ''urgent'') ''dup'' 1 1
                      \<lparr>status := ''in_flight'', assignedAgentId := Some ''agent-1'',
                       updatedAt := 7\<rparr>)),
        Done (Some (make_item (titled ''First'' ''urgent'') ''dup'' 1 1
                      \<lparr>status := ''in_flight'', assignedAgentId := Some ''agent-2'',
                       updatedAt := 8\<rparr>))]
   \<and> map (map_option item_id \<circ> claimed_of) (st_tasks (run ''p'' interleaving dup_claims))
       = [Some ''dup'', Some ''dup'']
   \<and> map status (stored (st_store (run ''p'' interleaving dup_claims)) ''p'')
       = [''in_flight'', ''ready'']"
proof -
  have i: "initial dup_claims"
    by (simp add: initial_def dup_claims_def)
  have s: "map status (stored (st_store dup_claims) ''p'') = [''ready'', ''ready'']"
    by code_simp
  have d: "map item_id (stored (st_store dup_claims) ''p'') = [''dup'', ''dup'']"
    by code_simp
  have r: "rtranclp (step ''p'') dup_claims (run ''p'' interleaving dup_claims)"
    by (rule run_reachable)
  have t: "st_tasks (run ''p'' interleaving dup_claims) =
       [Done (Some (make_item (titled ''First'' ''urgent'') ''dup'' 1 1
                      \<lparr>status := ''in_flight'', assignedAgentId := Some ''agent-1'',
                       updatedAt := 7\<rparr>)),
        Done (Some (make_item (titled ''First'' ''urgent'') ''dup'' 1 1
                      \<lparr>status := ''in_flight'', assignedAgentId := Some ''agent-2'',
                       updatedAt := 8\<rparr>))]"
    by code_simp
  have c: "map (map_option item_id \<circ> claimed_of) (st_tasks (run ''p'' interleaving dup_claims))
       = [Some ''dup'', Some ''dup'']"
    by code_simp
  have f: "map status (stored (st_store (run ''p'' interleaving dup_claims)) ''p'')
       = [''in_flight'', ''ready'']"
    by code_simp
  from i s d r t c f show ?thesis by (intro conjI)
qed

subsection \<open>Every call returns\<close>

lemma owned_initial: "initial \<sigma> \<Longrightarrow> owned \<sigma>"
  by (simp add: initial_def owned_def)

lemma owned_keep:
  assumes o: "owned \<sigma>" and i: "i < length (st_tasks \<sigma>)"
    and m: "mine_of t' = mine_of (st_tasks \<sigma> ! i)"
    and l: "st_lock \<sigma>' = st_lock \<sigma>" and r: "st_resolved \<sigma>' = st_resolved \<sigma>"
    and ts: "st_tasks \<sigma>' = (st_tasks \<sigma>)[i := t']"
  shows "owned \<sigma>'"
  unfolding owned_def
proof (intro allI impI)
  fix p assume "0 < p \<and> p \<le> st_lock \<sigma>' \<and> p \<notin> st_resolved \<sigma>'"
  with o l r obtain j where j: "j < length (st_tasks \<sigma>)" "mine_of (st_tasks \<sigma> ! j) = Some p"
    unfolding owned_def by auto
  with i m have "mine_of ((st_tasks \<sigma>)[i := t'] ! j) = Some p"
    by (cases "j = i") simp_all
  with j(1) ts show "\<exists>i<length (st_tasks \<sigma>'). mine_of (st_tasks \<sigma>' ! i) = Some p"
    by auto
qed

lemma owned_resolve:
  assumes o: "owned \<sigma>" and i: "i < length (st_tasks \<sigma>)"
    and m: "mine_of (st_tasks \<sigma> ! i) = Some mine"
    and l: "st_lock \<sigma>' = st_lock \<sigma>" and r: "st_resolved \<sigma>' = insert mine (st_resolved \<sigma>)"
    and ts: "st_tasks \<sigma>' = (st_tasks \<sigma>)[i := t']"
  shows "owned \<sigma>'"
  unfolding owned_def
proof (intro allI impI)
  fix p assume p: "0 < p \<and> p \<le> st_lock \<sigma>' \<and> p \<notin> st_resolved \<sigma>'"
  with r have pm: "p \<noteq> mine" by auto
  from p o l r obtain j where j: "j < length (st_tasks \<sigma>)" "mine_of (st_tasks \<sigma> ! j) = Some p"
    unfolding owned_def by auto
  with m pm have "j \<noteq> i" by auto
  with j have "mine_of ((st_tasks \<sigma>)[i := t'] ! j) = Some p" by simp
  with j(1) ts show "\<exists>i<length (st_tasks \<sigma>'). mine_of (st_tasks \<sigma>' ! i) = Some p"
    by auto
qed

lemma owned_step:
  assumes st: "step projectId \<sigma> \<sigma>'" and o: "owned \<sigma>"
  shows "owned \<sigma>'"
  using st
proof (cases rule: step.cases)
  case (enter i a)
  show ?thesis unfolding owned_def
  proof (intro allI impI)
    fix p assume p: "0 < p \<and> p \<le> st_lock \<sigma>' \<and> p \<notin> st_resolved \<sigma>'"
    show "\<exists>k<length (st_tasks \<sigma>'). mine_of (st_tasks \<sigma>' ! k) = Some p"
    proof (cases "p = Suc (st_lock \<sigma>)")
      case True
      with enter have "i < length (st_tasks \<sigma>') \<and> mine_of (st_tasks \<sigma>' ! i) = Some p"
        by simp
      then show ?thesis by blast
    next
      case False
      with p enter(1) have "0 < p \<and> p \<le> st_lock \<sigma> \<and> p \<notin> st_resolved \<sigma>" by simp
      with o obtain j where j: "j < length (st_tasks \<sigma>)" "mine_of (st_tasks \<sigma> ! j) = Some p"
        unfolding owned_def by blast
      with enter(3) have "j \<noteq> i" by auto
      with j enter(1) have "j < length (st_tasks \<sigma>') \<and> mine_of (st_tasks \<sigma>' ! j) = Some p"
        by simp
      then show ?thesis by blast
    qed
  qed
next
  case (acquire i a prev mine)
  show ?thesis
    by (rule owned_keep [OF o acquire(2), of "Reading a mine"]) (simp_all add: acquire)
next
  case (read_none i a mine)
  show ?thesis
    by (rule owned_resolve [OF o read_none(2), of mine _ "Done None"]) (simp_all add: read_none)
next
  case (read_some i a mine nextItem index it' now q')
  show ?thesis
    by (rule owned_keep [OF o read_some(2), of "Writing a mine q' it'"])
       (simp_all add: read_some(1,3))
next
  case (write_back i a mine q' it')
  show ?thesis
    by (rule owned_keep [OF o write_back(2), of "Written mine it'"]) (simp_all add: write_back)
next
  case (release i mine it')
  show ?thesis
    by (rule owned_resolve [OF o release(2), of mine _ "Done (Some it')"])
       (simp_all add: release)
qed

lemma owned_reachable:
  assumes "rtranclp (step projectId) \<sigma>0 \<sigma>" and "owned \<sigma>0"
  shows "owned \<sigma>"
  using assms by (induction rule: rtranclp_induct) (simp_all add: owned_step)

lemma in_cs_can_step:
  assumes i: "i < length (st_tasks \<sigma>)" and c: "in_cs (st_tasks \<sigma> ! i)"
  shows "\<exists>\<sigma>'. step projectId \<sigma> \<sigma>'"
proof (cases "st_tasks \<sigma> ! i")
  case (Reading a mine)
  show ?thesis
  proof (cases "scan priorityOrder (stored (st_store \<sigma>) projectId)")
    case None
    from step.read_none [OF i Reading None] show ?thesis by blast
  next
    case (Some nextItem)
    from scan_Some [OF Some] have "nextItem \<in> set (stored (st_store \<sigma>) projectId)"
      by auto
    then have "findIndex (\<lambda>it. item_id it = item_id nextItem) (stored (st_store \<sigma>) projectId)
        \<noteq> None"
      by (auto simp: findIndex_None_iff)
    then obtain index where
      "findIndex (\<lambda>it. item_id it = item_id nextItem) (stored (st_store \<sigma>) projectId)
         = Some index"
      by auto
    from step.read_some [OF i Reading Some this refl refl] show ?thesis by blast
  qed
next
  case (Writing a mine q' it')
  from step.write_back [OF i this] show ?thesis by blast
next
  case (Written mine it')
  from step.release [OF i this] show ?thesis by blast
qed (use c in simp_all)

lemma no_deadlock:
  assumes linv: "lock_inv \<sigma>" and o: "owned \<sigma>"
    and i: "i < length (st_tasks \<sigma>)" and nd: "\<forall>r. st_tasks \<sigma> ! i \<noteq> Done r"
  shows "\<exists>\<sigma>'. step projectId \<sigma> \<sigma>'"
proof (cases "\<exists>j<length (st_tasks \<sigma>). (\<exists>a. st_tasks \<sigma> ! j = Init a) \<or> in_cs (st_tasks \<sigma> ! j)")
  case True
  then obtain j where j: "j < length (st_tasks \<sigma>)"
    "(\<exists>a. st_tasks \<sigma> ! j = Init a) \<or> in_cs (st_tasks \<sigma> ! j)"
    by blast
  from j(2) show ?thesis
  proof
    assume "\<exists>a. st_tasks \<sigma> ! j = Init a"
    then obtain a where "st_tasks \<sigma> ! j = Init a" by blast
    from step.enter [OF j(1) this] show ?thesis by blast
  next
    assume "in_cs (st_tasks \<sigma> ! j)"
    from in_cs_can_step [OF j(1) this] show ?thesis .
  qed
next
  case False
  then have only: "\<And>j. j < length (st_tasks \<sigma>) \<Longrightarrow>
      (\<exists>a p m. st_tasks \<sigma> ! j = Waiting a p m) \<or> (\<exists>r. st_tasks \<sigma> ! j = Done r)"
  proof -
    fix j assume j: "j < length (st_tasks \<sigma>)"
    with False have "(\<forall>a. st_tasks \<sigma> ! j \<noteq> Init a) \<and> \<not> in_cs (st_tasks \<sigma> ! j)" by blast
    then show "(\<exists>a p m. st_tasks \<sigma> ! j = Waiting a p m) \<or> (\<exists>r. st_tasks \<sigma> ! j = Done r)"
      by (cases "st_tasks \<sigma> ! j") simp_all
  qed
  let ?W = "\<lambda>m. \<exists>j<length (st_tasks \<sigma>). \<exists>a p. st_tasks \<sigma> ! j = Waiting a p m"
  from only [OF i] nd obtain a0 p0 m0 where "st_tasks \<sigma> ! i = Waiting a0 p0 m0" by blast
  with i have "?W m0" by blast
  then have least: "?W (Least ?W)" by (rule LeastI)
  have minimal: "\<And>m. ?W m \<Longrightarrow> Least ?W \<le> m" by (rule Least_le)
  from least obtain j a p where j: "j < length (st_tasks \<sigma>)"
    "st_tasks \<sigma> ! j = Waiting a p (Least ?W)"
    by blast
  let ?m = "Least ?W"
  from linv j(1) have ok: "task_ok (st_lock \<sigma>) (st_resolved \<sigma>) (st_tasks \<sigma> ! j)"
    by (simp add: lock_inv_def)
  with j(2) have pm: "p = ?m - 1" "0 < ?m" "?m \<le> st_lock \<sigma>"
    by (simp_all add: task_ok_def)
  have "p \<in> st_resolved \<sigma>"
  proof (rule ccontr)
    assume n: "p \<notin> st_resolved \<sigma>"
    from linv have "0 \<in> st_resolved \<sigma>" by (simp add: lock_inv_def res_ok_def)
    with n have "0 < p" by (cases p) auto
    moreover from pm have "p \<le> st_lock \<sigma>" by simp
    ultimately have "0 < p \<and> p \<le> st_lock \<sigma> \<and> p \<notin> st_resolved \<sigma>" using n by simp
    with o obtain k where k: "k < length (st_tasks \<sigma>)" "mine_of (st_tasks \<sigma> ! k) = Some p"
      unfolding owned_def by blast
    from only [OF k(1)] k(2) obtain a' p' where "st_tasks \<sigma> ! k = Waiting a' p' p"
      by auto
    with k(1) have "?W p" by blast
    from minimal [OF this] pm show False by simp
  qed
  from step.acquire [OF j this] show ?thesis by blast
qed

lemma step_length:
  assumes "step projectId \<sigma> \<sigma>'"
  shows "length (st_tasks \<sigma>') = length (st_tasks \<sigma>)"
  using assms by (cases rule: step.cases) simp_all

lemma step_rank:
  assumes "step projectId \<sigma> \<sigma>'"
  shows "sum_list (map rank (st_tasks \<sigma>)) < sum_list (map rank (st_tasks \<sigma>'))"
proof -
  have gen: "sum_list (map rank ts) < sum_list (map rank (ts[i := t']))"
    if "i < length ts" and "rank (ts ! i) < rank t'" for ts i t'
  proof -
    from that(1) have "sum_list (map rank (ts[i := t'])) = sum_list (map rank ts) + rank t' - rank (ts ! i)"
      by (simp add: map_update sum_list_update)
    moreover from that(1) have "rank (ts ! i) \<in> set (map rank ts)" by simp
    then have "rank (ts ! i) \<le> sum_list (map rank ts)" by (simp add: member_le_sum_list)
    ultimately show ?thesis using that(2) by simp
  qed
  from assms show ?thesis
    by (cases rule: step.cases) (simp_all add: gen)
qed

lemma rank_bound: "sum_list (map rank ts) \<le> 5 * length ts"
proof (induction ts)
  case Nil
  then show ?case by simp
next
  case (Cons t ts)
  have "rank t \<le> 5" by (cases t) simp_all
  with Cons show ?case by simp
qed

text \<open>
  The lock does not deadlock: as long as some call has not returned, some call can go on.
  With the two facts above (every stretch raises the sum of the ranks, which is at most
  five for each call), every interleaving ends, and it ends with every call returned.
\<close>

lemma claims_make_progress:
  assumes "initial \<sigma>0" and "rtranclp (step projectId) \<sigma>0 \<sigma>"
    and "i < length (st_tasks \<sigma>)" and "\<forall>r. st_tasks \<sigma> ! i \<noteq> Done r"
  shows "\<exists>\<sigma>'. step projectId \<sigma> \<sigma>'"
proof -
  from lock_inv_reachable [OF assms(2) lock_inv_initial [OF assms(1)]] have "lock_inv \<sigma>" .
  moreover from owned_reachable [OF assms(2) owned_initial [OF assms(1)]] have "owned \<sigma>" .
  ultimately show ?thesis using assms(3,4) by (rule no_deadlock)
qed


subsection \<open>The two queues claim alike\<close>

text \<open>
  \<open>claim\<close> of the queue without project scope returns what \<open>claim\<close> of a project
  returns on the same list of items, and leaves the same list behind.
\<close>

lemma claim_g_agrees:
  "claim_g q a now =
     (fst (claim [projectId \<mapsto> \<lparr>items = g_items q, version = v\<rparr>] projectId a now),
      q\<lparr>g_items := stored (snd (claim [projectId \<mapsto> \<lparr>items = g_items q, version = v\<rparr>]
                                     projectId a now)) projectId\<rparr>)"
  by (simp add: claim_g_def claim_def loadQueue_def saveQueue_def Let_def
      split: option.splits)

end
